theory Spec2Isabelle
  imports
    Main
    "HOL-Library.AList"
    "HOL-Library.Char_ord"
    "HOL-Library.List_Lexorder"
    "HOL-Library.Product_Lexorder"
begin

section \<open>The migration updater command\<close>

text \<open>
  The development embeds \<^verbatim>\<open>Command.handle\<close> of
  \<^verbatim>\<open>migration_updater/management/commands/migration_updater.py\<close>.
  The method is one long body; each of its phases is a function here, named after what the
  source's comment calls it, with the source lines it embeds.

  The source binds \<^verbatim>\<open>app_names = ()\<close>; every loop then runs zero times. As the
  specification does, the embedding takes \<^verbatim>\<open>app_names\<close> as a parameter.

  The Django application registry, the directory listing and the import of each migration
  module are represented by their outcome: for an application name, the migration modules
  found in its \<^verbatim>\<open>migrations\<close> directory, in listing order, or \<open>None\<close> when the
  directory does not exist (the \<^verbatim>\<open>continue\<close> of line 48). An application that
  is not installed and a module that cannot be imported stop the command while it
  reads, before anything is built or written; they are not inputs of the embedding.

  The command's flags are arguments: \<open>hide\<close> is \<^verbatim>\<open>hide_squashed_nodes\<close>, and the
  rewrite and the removal are functions of their own, run when their flag is set. The
  export of the text (lines 143 to 152), to a file or through the \<^verbatim>\<open>dot\<close> program,
  is not embedded.
\<close>

subsection \<open>Data\<close>

type_synonym rid = "string \<times> string"

text \<open>
  An element of \<^verbatim>\<open>Migration.dependencies\<close> or \<^verbatim>\<open>Migration.replaces\<close>: a pair of
  strings, or something that is not a tuple (a list, say), which the source tests with
  \<^verbatim>\<open>isinstance(x, tuple)\<close>.
\<close>

datatype entry = Tuple string string | NonTuple "string list"

record migration_module =
  migration_name :: string
  migration_abspath :: string
  dependencies :: "entry list"
  replaces :: "entry list"

type_synonym disk = "string \<Rightarrow> migration_module list option"

text \<open>
  The dictionaries of the source keep insertion order, and assigning to a key that is
  present keeps its position: association lists with \<^const>\<open>AList.update\<close>. The sets of
  the source are only ever tested for membership or iterated through \<^verbatim>\<open>sorted\<close>:
  duplicate-free lists with \<^const>\<open>List.insert\<close>.
\<close>

record loaded =
  migrations :: "(rid \<times> migration_module) list"
  migration_paths :: "(rid \<times> string) list"
  squashing_migrations :: "rid list"
  replaced_nodes :: "(rid \<times> rid) list"

datatype style = ERROR | SUCCESS

type_synonym notice = "style \<times> string"

record graph =
  edges :: "(rid \<times> rid list) list"
  all_nodes :: "rid list"
  out :: "notice list"

abbreviation dq :: char where
  "dq \<equiv> CHR 0x22"

abbreviation nl :: char where
  "nl \<equiv> CHR 0x0A"

abbreviation bs :: char where
  "bs \<equiv> CHR 0x5C"

definition is_in :: "rid \<Rightarrow> (rid \<times> 'v) list \<Rightarrow> bool" where
  "is_in k d = (map_of d k \<noteq> None)"

subsection \<open>Reading all migrations (lines 43 to 71)\<close>

fun replaces_loop :: "string list \<Rightarrow> rid \<Rightarrow> entry list \<Rightarrow> (rid \<times> rid) list \<Rightarrow> (rid \<times> rid) list" where
  "replaces_loop app_names me [] rn = rn"
| "replaces_loop app_names me (NonTuple _ # rest) rn = replaces_loop app_names me rest rn"
| "replaces_loop app_names me (Tuple a b # rest) rn =
     replaces_loop app_names me rest
       (if a \<in> set app_names then AList.update (a, b) me rn else rn)"

definition load_module :: "string list \<Rightarrow> string \<Rightarrow> migration_module \<Rightarrow> loaded \<Rightarrow> loaded" where
  "load_module app_names app_name m st =
     (let k = (app_name, migration_name m) in
      \<lparr> migrations = AList.update k m (migrations st),
        migration_paths = AList.update k (migration_abspath m) (migration_paths st),
        squashing_migrations =
          (if replaces m \<noteq> [] then List.insert k (squashing_migrations st)
           else squashing_migrations st),
        replaced_nodes = replaces_loop app_names k (replaces m) (replaced_nodes st) \<rparr>)"

fun files_loop :: "string list \<Rightarrow> string \<Rightarrow> migration_module list \<Rightarrow> loaded \<Rightarrow> loaded" where
  "files_loop app_names app_name [] st = st"
| "files_loop app_names app_name (m # ms) st =
     files_loop app_names app_name ms (load_module app_names app_name m st)"

fun apps_loop :: "string list \<Rightarrow> disk \<Rightarrow> string list \<Rightarrow> loaded \<Rightarrow> loaded" where
  "apps_loop app_names d [] st = st"
| "apps_loop app_names d (app_name # rest) st =
     apps_loop app_names d rest
       (case d app_name of
          None \<Rightarrow> st
        | Some ms \<Rightarrow> files_loop app_names app_name ms st)"

definition read_migrations :: "string list \<Rightarrow> disk \<Rightarrow> loaded" where
  "read_migrations app_names d =
     apps_loop app_names d app_names
       \<lparr> migrations = [], migration_paths = [], squashing_migrations = [],
         replaced_nodes = [] \<rparr>"

subsection \<open>Building the graph (lines 73 to 103)\<close>

definition name :: "rid \<Rightarrow> string" where
  "name t = [CHR ''('', dq] @ fst t @ [dq, CHR '','', CHR '' '', dq] @ snd t @ [dq, CHR '')'']"

text \<open>
  Lines 85 and 86: \<^verbatim>\<open>while src in replaced_nodes and hide_squashed_nodes: src = replaced_nodes[src]\<close>.
  The loop has no bound and no visited set, so the function is partial: \<open>None\<close> is the
  loop that never exits.
\<close>

partial_function (option) resolve :: "(rid \<times> rid) list \<Rightarrow> bool \<Rightarrow> rid \<Rightarrow> rid option" where
  "resolve rn hide src =
     (case map_of rn src of
        Some nxt \<Rightarrow> if hide then resolve rn hide nxt else Some src
      | None \<Rightarrow> Some src)"

declare resolve.simps [code]

definition substitution_notice :: "(rid \<times> rid) list \<Rightarrow> rid \<Rightarrow> rid \<Rightarrow> rid \<Rightarrow> notice" where
  "substitution_notice rn original_src src dst =
     (let (sty, prefix) = (if is_in dst rn then (ERROR, ''squashed '') else (SUCCESS, ''''))
      in (sty, ''migration '' @ name original_src @ '' replaced by '' @ name src @
                 '' in the dependencies of the '' @ prefix @ ''migration '' @ name dst))"

definition add_edge :: "rid \<Rightarrow> rid \<Rightarrow> (rid \<times> rid list) list \<Rightarrow> (rid \<times> rid list) list" where
  "add_edge src dst es =
     AList.update src (List.insert dst (case map_of es src of None \<Rightarrow> [] | Some ds \<Rightarrow> ds)) es"

definition register_dependency ::
  "string list \<Rightarrow> (rid \<times> rid) list \<Rightarrow> rid \<Rightarrow> rid \<Rightarrow> rid \<Rightarrow> graph \<Rightarrow> graph" where
  "register_dependency app_names rn dst original_src src g =
     (let g1 = (if src \<noteq> original_src
                then g\<lparr>out := out g @ [substitution_notice rn original_src src dst]\<rparr>
                else g)
      in if fst src \<in> set app_names
         then g1\<lparr>edges := add_edge src dst (edges g1),
                 all_nodes := List.insert src (all_nodes g1)\<rparr>
         else g1)"

text \<open>
  How a run of the building loops ends: it returns, or the loop of lines 85 and 86 never
  exits. In both cases the state reached is kept: what line 94 printed before the loop
  that never exits stays printed.
\<close>

datatype 'a run = Returns 'a | Hangs 'a

fun dependencies_loop ::
  "string list \<Rightarrow> (rid \<times> rid) list \<Rightarrow> bool \<Rightarrow> rid \<Rightarrow> entry list \<Rightarrow> graph \<Rightarrow> graph run" where
  "dependencies_loop app_names rn hide dst [] g = Returns g"
| "dependencies_loop app_names rn hide dst (NonTuple _ # rest) g =
     dependencies_loop app_names rn hide dst rest g"
| "dependencies_loop app_names rn hide dst (Tuple a b # rest) g =
     (case resolve rn hide (a, b) of
        None \<Rightarrow> Hangs g
      | Some src \<Rightarrow>
          dependencies_loop app_names rn hide dst rest
            (register_dependency app_names rn dst (a, b) src g))"

fun migrations_loop ::
  "string list \<Rightarrow> (rid \<times> rid) list \<Rightarrow> bool \<Rightarrow> (rid \<times> migration_module) list \<Rightarrow> graph \<Rightarrow> graph run" where
  "migrations_loop app_names rn hide [] g = Returns g"
| "migrations_loop app_names rn hide ((dst, m) # rest) g =
     (if fst dst \<notin> set app_names then migrations_loop app_names rn hide rest g
      else case dependencies_loop app_names rn hide dst (dependencies m) g of
             Hangs g' \<Rightarrow> Hangs g'
           | Returns g' \<Rightarrow>
               migrations_loop app_names rn hide rest
                 (g'\<lparr>all_nodes := List.insert dst (all_nodes g')\<rparr>))"

definition build_run :: "string list \<Rightarrow> loaded \<Rightarrow> bool \<Rightarrow> graph run" where
  "build_run app_names ld hide =
     migrations_loop app_names (replaced_nodes ld) hide (migrations ld)
       \<lparr> edges = [], all_nodes = [], out = [] \<rparr>"

text \<open>The graph handed to the rendering, when the building returns.\<close>

definition build_graph :: "string list \<Rightarrow> loaded \<Rightarrow> bool \<Rightarrow> graph option" where
  "build_graph app_names ld hide =
     (case build_run app_names ld hide of Returns g \<Rightarrow> Some g | Hangs g \<Rightarrow> None)"

text \<open>What the building has written on the standard output, however it ends.\<close>

fun printed :: "graph run \<Rightarrow> notice list" where
  "printed (Returns g) = out g"
| "printed (Hangs g) = out g"

subsection \<open>Writing the GraphViz text (lines 105 to 141)\<close>

text \<open>
  Each \<^verbatim>\<open>buffer.write\<close> of a node or of an edge is a \<open>line\<close> that keeps the identifiers
  it was formatted from; \<open>line_text\<close> is the text written.
\<close>

datatype line = Node rid string string | Edge rid rid

definition key :: "rid \<Rightarrow> string" where
  "key t = fst t @ ''_'' @ snd t"

definition dst_set_of :: "(rid \<times> rid list) list \<Rightarrow> rid \<Rightarrow> rid list" where
  "dst_set_of es src = (case map_of es src of None \<Rightarrow> [] | Some ds \<Rightarrow> ds)"

definition node_line :: "loaded \<Rightarrow> graph \<Rightarrow> rid \<Rightarrow> line" where
  "node_line ld g src =
     (let dst_set = dst_set_of (edges g) src;
          color = (if \<exists>dst \<in> set dst_set.
                        \<not> is_in dst (replaced_nodes ld) \<and> fst dst \<noteq> fst src
                   then ''#d9534f'' else ''#79aec8'');
          label = fst src @ '':'' @ snd src;
          label = (if src \<in> set (squashing_migrations ld) then label @ '' (squash)''
                   else label)
      in if is_in src (replaced_nodes ld)
         then Node src ''#eeeeee'' (label @ '' (squashed)'')
         else Node src color label)"

definition node_lines :: "loaded \<Rightarrow> graph \<Rightarrow> bool \<Rightarrow> line list" where
  "node_lines ld g hide =
     map (node_line ld g)
       (filter (\<lambda>src. \<not> (is_in src (replaced_nodes ld) \<and> hide)) (sort (all_nodes g)))"

definition replacement_lines :: "loaded \<Rightarrow> bool \<Rightarrow> line list" where
  "replacement_lines ld hide =
     (if \<not> hide then map (\<lambda>(src, dst). Edge src dst) (replaced_nodes ld) else [])"

definition edge_lines :: "loaded \<Rightarrow> graph \<Rightarrow> bool \<Rightarrow> line list" where
  "edge_lines ld g hide =
     concat (map (\<lambda>(src, dst_set).
                    if is_in src (replaced_nodes ld) \<and> hide then []
                    else map (Edge src)
                           (filter (\<lambda>dst. \<not> (is_in dst (replaced_nodes ld) \<and> hide))
                              (sort dst_set)))
               (sort_key fst (edges g)))"

definition graph_lines :: "loaded \<Rightarrow> graph \<Rightarrow> bool \<Rightarrow> line list" where
  "graph_lines ld g hide = node_lines ld g hide @ replacement_lines ld hide @ edge_lines ld g hide"

fun line_text :: "line \<Rightarrow> string" where
  "line_text (Node src color label) =
     ''    '' @ key src @ '' [fillcolor='' @ [dq] @ color @ [dq] @ '', style='' @ [dq] @
     ''filled'' @ [dq] @ '', label='' @ [dq] @ label @ [dq] @ ''];'' @ [nl]"
| "line_text (Edge src dst) = ''    '' @ key src @ '' -> '' @ key dst @ '';'' @ [nl]"

definition graphviz_text :: "loaded \<Rightarrow> graph \<Rightarrow> bool \<Rightarrow> string" where
  "graphviz_text ld g hide =
     ''digraph migrations {'' @ [nl] @ concat (map line_text (graph_lines ld g hide)) @
     ''}'' @ [nl]"

subsection \<open>The whole rendering, from the disk\<close>

definition render_graph :: "string list \<Rightarrow> disk \<Rightarrow> bool \<Rightarrow> line list option" where
  "render_graph app_names d hide =
     (let ld = read_migrations app_names d
      in map_option (\<lambda>g. graph_lines ld g hide) (build_graph app_names ld hide))"

subsection \<open>Rewriting the dependencies (lines 154 to 170)\<close>

text \<open>
  The files, as the bytes they hold, the standard output and the sequence of
  \<^verbatim>\<open>fd.write\<close> calls with the text each was given. An operation returns the
  exception that stopped it, if any, and the world as it was left: what was written
  before the exception stays written.
\<close>

datatype error = KeyError | FileNotFoundError | UnicodeDecodeError | ReError

record world =
  files :: "string \<rightharpoonup> string"
  stdout :: "notice list"
  writes :: "(string \<times> string) list"

text \<open>
  Lines 157 and 168 open the files in text mode, with the encoding of the locale and
  universal newlines. A text is represented here by its bytes in that encoding, which is
  taken to extend ASCII: reading raises \<^verbatim>\<open>UnicodeDecodeError\<close> on bytes that do not
  decode and turns each CR LF and each remaining CR into LF; writing turns each LF into
  the line separator of the platform. Which bytes decode and what the line separator is
  belong to the platform the command runs on. Writing is taken never to fail to encode,
  and the other failures of the file system (permissions, a full disk) are not inputs of
  the embedding.
\<close>

record platform =
  decodable :: "string \<Rightarrow> bool"
  linesep :: string

abbreviation cr :: char where
  "cr \<equiv> CHR 0x0D"

fun universal_newlines :: "string \<Rightarrow> string" where
  "universal_newlines [] = []"
| "universal_newlines [c] = [if c = cr then nl else c]"
| "universal_newlines (c # d # s) =
     (if c = cr
      then (if d = nl then nl # universal_newlines s else nl # universal_newlines (d # s))
      else c # universal_newlines (d # s))"

definition read_text :: "platform \<Rightarrow> string \<Rightarrow> error + string" where
  "read_text pf bytes =
     (if decodable pf bytes then Inr (universal_newlines bytes) else Inl UnicodeDecodeError)"

definition write_text :: "platform \<Rightarrow> string \<Rightarrow> string" where
  "write_text pf content = concat (map (\<lambda>c. if c = nl then linesep pf else [c]) content)"

abbreviation sq :: char where
  "sq \<equiv> CHR 0x27"

text \<open>
  Line 164 formats the regular expression
  \<^verbatim>\<open>\(\s*['\"]%s['\"]\s*,\s*['\"]%s['\"]\s*)\<close> with the two strings of the dependency.
\<close>

definition dependency_pattern :: "rid \<Rightarrow> string" where
  "dependency_pattern src =
     (let ws = [bs, CHR ''s'', CHR ''*''];
          quote = [CHR ''['', sq, bs, dq, CHR '']'']
      in [bs, CHR ''(''] @ ws @ quote @ fst src @ quote @ ws @ '','' @ ws @
         quote @ snd src @ quote @ ws @ '')'')"

text \<open>
  The opening parenthesis of the pattern is escaped and the closing one is not. When the
  two names contain no character that is special in a regular expression, every other
  character of the pattern is a literal, a class or \<^verbatim>\<open>\s*\<close>, so the closing
  parenthesis closes no group and \<^verbatim>\<open>re.sub\<close> raises
  \<^verbatim>\<open>re.error: unbalanced parenthesis\<close> when it compiles the pattern, before it
  looks at the text. For other names the outcome depends on the whole grammar of Python's
  regular expressions, which is not part of this program: there the call is left to the
  parameter \<open>engine\<close> (pattern, replacement, text).
\<close>

definition regex_special :: "char \<Rightarrow> bool" where
  "regex_special c = (c \<in> set ''.^$*+?{}[]|()'' \<or> c = bs)"

definition literal_name :: "string \<Rightarrow> bool" where
  "literal_name s = (\<not> list_ex regex_special s)"

type_synonym regex_engine = "string \<Rightarrow> string \<Rightarrow> string \<Rightarrow> error + string"

definition re_sub :: "regex_engine \<Rightarrow> rid \<Rightarrow> string \<Rightarrow> string \<Rightarrow> error + string" where
  "re_sub engine src repl content =
     (if literal_name (fst src) \<and> literal_name (snd src) then Inl ReError
      else engine (dependency_pattern src) repl content)"

fun substitute_loop ::
  "regex_engine \<Rightarrow> (rid \<times> rid) list \<Rightarrow> entry list \<Rightarrow> string \<Rightarrow> error + string" where
  "substitute_loop engine rn [] content = Inr content"
| "substitute_loop engine rn (NonTuple _ # rest) content =
     substitute_loop engine rn rest content"
| "substitute_loop engine rn (Tuple a b # rest) content =
     (case map_of rn (a, b) of
        None \<Rightarrow> substitute_loop engine rn rest content
      | Some r \<Rightarrow>
          (case re_sub engine (a, b) (name r) content of
             Inl e \<Rightarrow> Inl e
           | Inr content' \<Rightarrow> substitute_loop engine rn rest content'))"

fun rewrite_loop ::
  "platform \<Rightarrow> regex_engine \<Rightarrow> loaded \<Rightarrow> (rid \<times> string) list \<Rightarrow> world \<Rightarrow> error option \<times> world" where
  "rewrite_loop pf engine ld [] w = (None, w)"
| "rewrite_loop pf engine ld ((migration_key, migration_path) # rest) w =
     (case map_of (migrations ld) migration_key of
        None \<Rightarrow> (Some KeyError, w)
      | Some m \<Rightarrow>
          (case files w migration_path of
             None \<Rightarrow> (Some FileNotFoundError, w)
           | Some bytes \<Rightarrow>
               (case read_text pf bytes of
                  Inl e \<Rightarrow> (Some e, w)
                | Inr migration_content \<Rightarrow>
                    (case substitute_loop engine (replaced_nodes ld) (dependencies m)
                            migration_content of
                       Inl e \<Rightarrow> (Some e, w)
                     | Inr content' \<Rightarrow>
                         rewrite_loop pf engine ld rest
                           (w\<lparr>files := (files w)(migration_path \<mapsto> write_text pf content'),
                              writes := writes w @ [(migration_path, content')],
                              stdout := stdout w @
                                [(SUCCESS, migration_path @ '' updated'')]\<rparr>)))))"

definition replace_squashed_dependencies ::
  "platform \<Rightarrow> regex_engine \<Rightarrow> loaded \<Rightarrow> world \<Rightarrow> error option \<times> world" where
  "replace_squashed_dependencies pf engine ld w =
     rewrite_loop pf engine ld (migration_paths ld) w"

subsection \<open>Removing the squashed migrations (lines 172 to 176)\<close>

fun remove_loop :: "loaded \<Rightarrow> (rid \<times> string) list \<Rightarrow> world \<Rightarrow> error option \<times> world" where
  "remove_loop ld [] w = (None, w)"
| "remove_loop ld ((migration_key, migration_path) # rest) w =
     (if is_in migration_key (replaced_nodes ld)
      then (case files w migration_path of
              None \<Rightarrow> (Some FileNotFoundError, w)
            | Some _ \<Rightarrow>
                remove_loop ld rest
                  (w\<lparr>files := (files w)(migration_path := None),
                     stdout := stdout w @ [(SUCCESS, migration_path @ '' deleted'')]\<rparr>))
      else remove_loop ld rest w)"

definition remove_squashed_dependencies :: "loaded \<Rightarrow> world \<Rightarrow> error option \<times> world" where
  "remove_squashed_dependencies ld w = remove_loop ld (migration_paths ld) w"

section \<open>Notions of the specification\<close>

subsection \<open>Replacement discovery\<close>

text \<open>
  The records in the order the reading loop processes them, the replacement declarations
  they make in that order (a pair in a \<^verbatim>\<open>replaces\<close> list whose group is configured,
  with the identifier of the declaring record), and the last record that declared a given
  identifier.
\<close>

definition processed :: "string list \<Rightarrow> disk \<Rightarrow> (rid \<times> migration_module) list" where
  "processed app_names d =
     concat (map (\<lambda>a. case d a of
                         None \<Rightarrow> []
                       | Some ms \<Rightarrow> map (\<lambda>m. ((a, migration_name m), m)) ms) app_names)"

fun declared :: "string list \<Rightarrow> rid \<Rightarrow> entry \<Rightarrow> (rid \<times> rid) list" where
  "declared app_names k (Tuple a b) = (if a \<in> set app_names then [((a, b), k)] else [])"
| "declared app_names k (NonTuple _) = []"

definition declarations :: "string list \<Rightarrow> (rid \<times> migration_module) list \<Rightarrow> (rid \<times> rid) list" where
  "declarations app_names recs =
     concat (map (\<lambda>(k, m). concat (map (declared app_names k) (replaces m))) recs)"

definition last_declared :: "(rid \<times> rid) list \<Rightarrow> rid \<Rightarrow> rid option" where
  "last_declared ds r =
     (case filter (\<lambda>p. fst p = r) ds of
        [] \<Rightarrow> None
      | p # ps \<Rightarrow> Some (snd (last (p # ps))))"

subsection \<open>Following the replacement map\<close>

text \<open>
  The identifier reached from \<open>src\<close> after \<open>n\<close> steps of the replacement map, staying
  where it is once it has left the keys.
\<close>

fun follow :: "(rid \<times> rid) list \<Rightarrow> nat \<Rightarrow> rid \<Rightarrow> rid" where
  "follow rn 0 src = src"
| "follow rn (Suc n) src = (case map_of rn src of None \<Rightarrow> src | Some nxt \<Rightarrow> follow rn n nxt)"

text \<open>
  Whether the chain that starts at \<open>src\<close> leaves the keys of the replacement map. A
  chain that leaves them does so within as many steps as the map has entries, and stays
  where it left.
\<close>

definition chain_ends :: "(rid \<times> rid) list \<Rightarrow> rid \<Rightarrow> bool" where
  "chain_ends rn src = (\<not> is_in (follow rn (length rn) src) rn)"

subsection \<open>Edge resolution\<close>

text \<open>
  The sources that the pairs of a dependency list resolve to and that lie in a configured
  group; the records of the configured groups; the dependents of a source, that is the
  records one of whose dependencies resolves to it.
\<close>

definition resolved_sources :: "string list \<Rightarrow> (rid \<times> rid) list \<Rightarrow> bool \<Rightarrow> entry list \<Rightarrow> rid set" where
  "resolved_sources app_names rn hide es =
     {src. \<exists>a b. Tuple a b \<in> set es \<and> resolve rn hide (a, b) = Some src \<and> fst src \<in> set app_names}"

definition loaded_here :: "string list \<Rightarrow> (rid \<times> migration_module) list \<Rightarrow> rid set" where
  "loaded_here app_names migs = {dst. \<exists>m. (dst, m) \<in> set migs \<and> fst dst \<in> set app_names}"

definition dependents_of ::
  "string list \<Rightarrow> (rid \<times> rid) list \<Rightarrow> bool \<Rightarrow> (rid \<times> migration_module) list \<Rightarrow> rid \<Rightarrow> rid set" where
  "dependents_of app_names rn hide migs src =
     {dst. \<exists>m. (dst, m) \<in> set migs \<and> fst dst \<in> set app_names \<and>
               src \<in> resolved_sources app_names rn hide (dependencies m)}"

text \<open>
  The dependency entries of the records of the configured groups, each with its record,
  in the order the building visits them; whether the resolution of an entry terminates;
  whether all of them do.
\<close>

definition occurrences :: "string list \<Rightarrow> (rid \<times> migration_module) list \<Rightarrow> (rid \<times> entry) list" where
  "occurrences app_names migs =
     concat (map (\<lambda>(dst, m). if fst dst \<in> set app_names
                               then map (Pair dst) (dependencies m) else []) migs)"

fun resolves :: "(rid \<times> rid) list \<Rightarrow> bool \<Rightarrow> entry \<Rightarrow> bool" where
  "resolves rn hide (Tuple a b) = (if hide then chain_ends rn (a, b) else True)"
| "resolves rn hide (NonTuple _) = True"

definition every_chain_ends ::
  "string list \<Rightarrow> (rid \<times> rid) list \<Rightarrow> bool \<Rightarrow> (rid \<times> migration_module) list \<Rightarrow> bool" where
  "every_chain_ends app_names rn hide migs =
     list_all (\<lambda>(dst, e). resolves rn hide e) (occurrences app_names migs)"

text \<open>
  The diagnostic of one dependency entry of the record \<open>dst\<close>: a notice when the
  resolved identifier differs from the declared one, styled as an error when \<open>dst\<close> is
  a key of the replacement map and as a success otherwise. The diagnostics of a run:
  those of the entries visited before the first one whose resolution does not terminate.
\<close>

fun diagnostic :: "(rid \<times> rid) list \<Rightarrow> bool \<Rightarrow> rid \<Rightarrow> entry \<Rightarrow> notice list" where
  "diagnostic rn hide dst (NonTuple _) = []"
| "diagnostic rn hide dst (Tuple a b) =
     (case resolve rn hide (a, b) of
        None \<Rightarrow> []
      | Some src \<Rightarrow>
          if src \<noteq> (a, b)
          then [(if is_in dst rn then ERROR else SUCCESS,
                 snd (substitution_notice rn (a, b) src dst))]
          else [])"

definition expected_diagnostics ::
  "string list \<Rightarrow> (rid \<times> rid) list \<Rightarrow> bool \<Rightarrow> (rid \<times> migration_module) list \<Rightarrow> notice list" where
  "expected_diagnostics app_names rn hide migs =
     concat (map (\<lambda>(dst, e). diagnostic rn hide dst e)
               (takeWhile (\<lambda>(dst, e). resolves rn hide e) (occurrences app_names migs)))"

subsection \<open>The rendered lines\<close>

text \<open>
  The identifiers that have a node line, and the identifiers that occur as the source or
  the destination of an edge line.
\<close>

fun node_ids :: "line list \<Rightarrow> rid list" where
  "node_ids [] = []"
| "node_ids (Node src color label # ls) = src # node_ids ls"
| "node_ids (Edge src dst # ls) = node_ids ls"

fun edge_ends :: "line list \<Rightarrow> rid list" where
  "edge_ends [] = []"
| "edge_ends (Node src color label # ls) = edge_ends ls"
| "edge_ends (Edge src dst # ls) = src # dst # edge_ends ls"

subsection \<open>The record patcher\<close>




text \<open>The paths of the records that are keys of the replacement map.\<close>

definition removed_paths :: "loaded \<Rightarrow> (rid \<times> string) list \<Rightarrow> string list" where
  "removed_paths ld ps = map snd (filter (\<lambda>(k, p). is_in k (replaced_nodes ld)) ps)"

subsection \<open>Entries that are not pairs\<close>

text \<open>
  A disk on which every entry that is not a pair has been taken out of the dependencies
  and of the replaces of every record.
\<close>

fun is_tuple :: "entry \<Rightarrow> bool" where
  "is_tuple (Tuple a b) = True"
| "is_tuple (NonTuple _) = False"

definition strip_module :: "migration_module \<Rightarrow> migration_module" where
  "strip_module m =
     m\<lparr>dependencies := filter is_tuple (dependencies m),
       replaces := filter is_tuple (replaces m)\<rparr>"

definition strip_disk :: "disk \<Rightarrow> disk" where
  "strip_disk d app_name = map_option (map strip_module) (d app_name)"

section \<open>Example inputs\<close>

definition module :: "string \<Rightarrow> entry list \<Rightarrow> entry list \<Rightarrow> migration_module" where
  "module n deps reps =
     \<lparr> migration_name = n, migration_abspath = ''/'' @ n @ ''.py'',
       dependencies = deps, replaces = reps \<rparr>"

text \<open>A record that lists itself in its \<^verbatim>\<open>replaces\<close>.\<close>

definition self_disk :: disk where
  "self_disk = map_of [(''a'', [module ''1'' [] [Tuple ''a'' ''1'']])]"

text \<open>Two squashing records that both declare \<^verbatim>\<open>("a", "1")\<close> replaced.\<close>

definition twice_disk :: disk where
  "twice_disk =
     map_of [(''a'', [module ''1'' [] [],
                      module ''2'' [] [Tuple ''a'' ''1''],
                      module ''3'' [] [Tuple ''a'' ''1'']])]"

text \<open>Two records that replace each other, and a third that depends on one of them.\<close>

definition cycle_disk :: disk where
  "cycle_disk =
     map_of [(''a'', [module ''1'' [] [Tuple ''a'' ''2''],
                      module ''2'' [] [Tuple ''a'' ''1''],
                      module ''3'' [Tuple ''a'' ''1''] []])]"

text \<open>A chain of squashes: 2 replaces 1, 3 replaces 2; 4 depends on 1.\<close>

definition chain_disk :: disk where
  "chain_disk =
     map_of [(''a'', [module ''1'' [] [],
                      module ''2'' [] [Tuple ''a'' ''1''],
                      module ''3'' [] [Tuple ''a'' ''2''],
                      module ''4'' [Tuple ''a'' ''1''] []])]"

text \<open>The squash scenario of the specification: 3 replaces 1 and 2; 2 depends on 1, 4 depends on 2.\<close>

definition squash_disk :: disk where
  "squash_disk =
     map_of [(''a'', [module ''1'' [] [],
                      module ''2'' [Tuple ''a'' ''1''] [],
                      module ''3'' [] [Tuple ''a'' ''1'', Tuple ''a'' ''2''],
                      module ''4'' [Tuple ''a'' ''2''] []])]"

text \<open>
  A squash of 1 into 2, two records 5 and 6 that replace each other, and a record 7 that
  depends on 1, then on 5, then on 1 again.
\<close>

definition hang_disk :: disk where
  "hang_disk =
     map_of [(''a'', [module ''1'' [] [],
                      module ''2'' [] [Tuple ''a'' ''1''],
                      module ''5'' [] [Tuple ''a'' ''6''],
                      module ''6'' [] [Tuple ''a'' ''5''],
                      module ''7'' [Tuple ''a'' ''1'', Tuple ''a'' ''5'', Tuple ''a'' ''1''] []])]"

text \<open>A squashing record whose replaced record is no longer on the disk.\<close>

definition dangling_disk :: disk where
  "dangling_disk = map_of [(''a'', [module ''3'' [] [Tuple ''a'' ''1'']])]"

text \<open>A chain of three squashes: 2 replaces 1, 3 replaces 2, 4 replaces 3; 5 depends on 1.\<close>

definition long_chain_disk :: disk where
  "long_chain_disk =
     map_of [(''a'', [module ''1'' [] [],
                      module ''2'' [] [Tuple ''a'' ''1''],
                      module ''3'' [] [Tuple ''a'' ''2''],
                      module ''4'' [] [Tuple ''a'' ''3''],
                      module ''5'' [Tuple ''a'' ''1''] []])]"

text \<open>Two groups: \<^verbatim>\<open>("b", "2")\<close> depends on \<^verbatim>\<open>("a", "1")\<close> and is replaced by \<^verbatim>\<open>("b", "3")\<close>.\<close>

definition cross_disk :: disk where
  "cross_disk =
     map_of [(''a'', [module ''1'' [] []]),
             (''b'', [module ''2'' [Tuple ''a'' ''1''] [],
                      module ''3'' [] [Tuple ''b'' ''2'']])]"

text \<open>Two groups: \<^verbatim>\<open>("b", "2")\<close> depends on \<^verbatim>\<open>("a", "1")\<close>; nothing is replaced.\<close>

definition cross_live_disk :: disk where
  "cross_live_disk =
     map_of [(''a'', [module ''1'' [] []]),
             (''b'', [module ''2'' [Tuple ''a'' ''1''] []])]"


text \<open>The files of four migrations, nothing printed or written yet.\<close>

definition plain_world :: world where
  "plain_world =
     \<lparr> files = map_of [(''/1.py'', ''one''), (''/2.py'', ''two''),
                        (''/3.py'', ''three''), (''/4.py'', ''four'')],
       stdout = [], writes = [] \<rparr>"




text \<open>Records whose lists hold lists where pairs are expected.\<close>

definition nontuple_disk :: disk where
  "nontuple_disk =
     map_of [(''a'', [module ''1'' [NonTuple [''a'', ''0'']] [],
                      module ''2'' [Tuple ''a'' ''1'', NonTuple [''a'', ''1'']] [],
                      module ''3'' [] [NonTuple [''a'', ''2''], Tuple ''a'' ''1''],
                      module ''4'' [] [NonTuple [''a'', ''3'']]])]"

section \<open>Membership in a dictionary\<close>

lemma not_is_in [simp]: "(\<not> is_in k d) = (map_of d k = None)"
  by (simp add: is_in_def)

lemma is_in_Some: "map_of d k = Some v \<Longrightarrow> is_in k d"
  by (simp add: is_in_def)

lemma is_in_fst: "is_in k d = (k \<in> fst ` set d)"
  by (simp add: is_in_def map_of_eq_None_iff)

section \<open>Replacement discovery\<close>

lemma last_declared_map_of: "last_declared ds r = map_of (rev ds) r"
proof (induction ds rule: rev_induct)
  case Nil
  then show ?case by (simp add: last_declared_def)
next
  case (snoc p ds)
  then show ?case
    by (cases p) (auto simp: last_declared_def split: list.splits)
qed

lemma replaces_loop_map:
  "map_of (replaces_loop app_names k es rn) =
   map_of rn ++ map_of (rev (concat (map (declared app_names k) es)))"
proof (induction es arbitrary: rn)
  case Nil
  then show ?case by simp
next
  case (Cons e es)
  then show ?case
    by (cases e) (auto simp: update_conv' map_add_def fun_eq_iff split: option.splits)
qed

lemma replaces_loop_distinct:
  "distinct (map fst rn) \<Longrightarrow> distinct (map fst (replaces_loop app_names k es rn))"
  by (induction app_names k es rn rule: replaces_loop.induct) (auto simp: distinct_update)

lemma replaced_nodes_load_module [simp]:
  "replaced_nodes (load_module app_names a m st) =
   replaces_loop app_names (a, migration_name m) (replaces m) (replaced_nodes st)"
  by (simp add: load_module_def Let_def)

lemma declarations_append:
  "declarations app_names (xs @ ys) = declarations app_names xs @ declarations app_names ys"
  by (simp add: declarations_def)

lemma files_loop_replaced:
  "map_of (replaced_nodes (files_loop app_names a ms st)) =
   map_of (replaced_nodes st) ++
   map_of (rev (declarations app_names (map (\<lambda>m. ((a, migration_name m), m)) ms)))"
proof (induction ms arbitrary: st)
  case Nil
  then show ?case by (simp add: declarations_def)
next
  case (Cons m ms)
  then show ?case
    by (simp add: declarations_def replaces_loop_map)
qed

lemma files_loop_distinct:
  "distinct (map fst (replaced_nodes st)) \<Longrightarrow>
   distinct (map fst (replaced_nodes (files_loop app_names a ms st)))"
  by (induction ms arbitrary: st) (auto simp: replaces_loop_distinct)

lemma apps_loop_replaced:
  "map_of (replaced_nodes (apps_loop app_names d as st)) =
   map_of (replaced_nodes st) ++ map_of (rev (declarations app_names (processed as d)))"
proof (induction as arbitrary: st)
  case Nil
  then show ?case by (simp add: declarations_def processed_def)
next
  case (Cons a as)
  have split: "processed (a # as) d = processed [a] d @ processed as d"
    by (simp add: processed_def)
  show ?case
    by (cases "d a") (simp_all add: Cons split declarations_append files_loop_replaced,
                      simp_all add: processed_def declarations_def)
qed

lemma apps_loop_distinct:
  "distinct (map fst (replaced_nodes st)) \<Longrightarrow>
   distinct (map fst (replaced_nodes (apps_loop app_names d as st)))"
  by (induction as arbitrary: st) (auto simp: files_loop_distinct split: option.splits)

lemma read_migrations_distinct:
  "distinct (map fst (replaced_nodes (read_migrations app_names d)))"
  by (simp add: read_migrations_def apps_loop_distinct)

text \<open>
  C8, as the code has it. The replacement map holds one replacement for each replaced
  identifier: the identifier of the last record, in processing order, that declared it
  in its \<^verbatim>\<open>replaces\<close> list (as a pair whose group is configured). Nothing prevents
  that record from being the replaced identifier itself.
\<close>

theorem replacement_map_last_writer:
  "distinct (map fst (replaced_nodes (read_migrations app_names d))) \<and>
   map_of (replaced_nodes (read_migrations app_names d)) r =
   last_declared (declarations app_names (processed app_names d)) r"
  by (simp add: read_migrations_def apps_loop_replaced apps_loop_distinct last_declared_map_of)

theorem replacement_map_last_writer_witness:
  "map_of (replaced_nodes (read_migrations [''a''] twice_disk)) (''a'', ''1'') =
   Some (''a'', ''3'')"
proof -
  have "last_declared (declarations [''a''] (processed [''a''] twice_disk)) (''a'', ''1'') =
        Some (''a'', ''3'')"
    by code_simp
  with replacement_map_last_writer [of "[''a'']" twice_disk "(''a'', ''1'')"]
  show ?thesis by simp
qed

text \<open>
  C8 as stated says that no key maps to itself. The record \<^verbatim>\<open>("a", "1")\<close> whose
  \<^verbatim>\<open>replaces\<close> is \<^verbatim>\<open>[("a", "1")]\<close> is mapped to itself.
\<close>

theorem replacement_map_self_counterexample:
  "map_of (replaced_nodes (read_migrations [''a''] self_disk)) (''a'', ''1'') =
   Some (''a'', ''1'')"
  by code_simp

section \<open>What the graph building computes\<close>

lemma dst_set_of_add_edge:
  "dst_set_of (add_edge src dst es) x =
   (if x = src then List.insert dst (dst_set_of es src) else dst_set_of es x)"
  by (simp add: dst_set_of_def add_edge_def update_conv')

lemma distinct_add_edge:
  "distinct (map fst es) \<Longrightarrow> distinct (map fst (add_edge src dst es))"
  by (simp add: add_edge_def distinct_update)

lemma edges_register [simp]:
  "edges (register_dependency app_names rn dst original_src src g) =
   (if fst src \<in> set app_names then add_edge src dst (edges g) else edges g)"
  by (simp add: register_dependency_def Let_def)

lemma all_nodes_register [simp]:
  "all_nodes (register_dependency app_names rn dst original_src src g) =
   (if fst src \<in> set app_names then List.insert src (all_nodes g) else all_nodes g)"
  by (simp add: register_dependency_def Let_def)

lemma out_register [simp]:
  "out (register_dependency app_names rn dst original_src src g) =
   out g @ (if src \<noteq> original_src then [substitution_notice rn original_src src dst] else [])"
  by (simp add: register_dependency_def Let_def)

lemma resolved_sources_simps [simp]:
  "resolved_sources app_names rn hide [] = {}"
  "resolved_sources app_names rn hide (NonTuple x # es) = resolved_sources app_names rn hide es"
  "resolved_sources app_names rn hide (Tuple a b # es) =
     {src. resolve rn hide (a, b) = Some src \<and> fst src \<in> set app_names} \<union>
     resolved_sources app_names rn hide es"
  by (auto simp: resolved_sources_def)

lemma dependencies_loop_graph:
  assumes "dependencies_loop app_names rn hide dst es g = Returns g'"
  shows "set (dst_set_of (edges g') x) =
           set (dst_set_of (edges g) x) \<union>
           (if x \<in> resolved_sources app_names rn hide es then {dst} else {})"
    and "set (all_nodes g') = set (all_nodes g) \<union> resolved_sources app_names rn hide es"
    and "distinct (map fst (edges g)) \<Longrightarrow> distinct (map fst (edges g'))"
  using assms
proof (induction app_names rn hide dst es g rule: dependencies_loop.induct)
  case (1 app_names rn hide dst g)
  { case 1 then show ?case by simp }
  { case 2 then show ?case by simp }
  { case 3 then show ?case by simp }
next
  case (2 app_names rn hide dst uu rest g)
  { case 1 with 2 show ?case by simp }
  { case 2 with "2.IH" show ?case by simp }
  { case 3 with "2.IH" show ?case by simp }
next
  case (3 app_names rn hide dst a b rest g)
  { case 1
    then obtain src where src: "resolve rn hide (a, b) = Some src"
      and loop: "dependencies_loop app_names rn hide dst rest
                  (register_dependency app_names rn dst (a, b) src g) = Returns g'"
      by (auto split: option.splits run.splits)
    from "3.IH"(1) [OF src loop] src show ?case
      by (auto simp: dst_set_of_add_edge split: if_splits) }
  { case 2
    then obtain src where src: "resolve rn hide (a, b) = Some src"
      and loop: "dependencies_loop app_names rn hide dst rest
                  (register_dependency app_names rn dst (a, b) src g) = Returns g'"
      by (auto split: option.splits run.splits)
    from "3.IH"(2) [OF src loop] src show ?case
      by (auto split: if_splits) }
  { case 3
    then obtain src where src: "resolve rn hide (a, b) = Some src"
      and loop: "dependencies_loop app_names rn hide dst rest
                  (register_dependency app_names rn dst (a, b) src g) = Returns g'"
      by (auto split: option.splits run.splits)
    from "3.IH"(3) [OF src _ loop] 3 show ?case
      by (auto simp: distinct_add_edge split: if_splits) }
qed


lemma loaded_here_simps [simp]:
  "loaded_here app_names [] = {}"
  "loaded_here app_names ((dst, m) # migs) =
     (if fst dst \<in> set app_names then {dst} else {}) \<union> loaded_here app_names migs"
  by (auto simp: loaded_here_def)

lemma dependents_of_simps [simp]:
  "dependents_of app_names rn hide [] src = {}"
  "dependents_of app_names rn hide ((dst, m) # migs) src =
     (if fst dst \<in> set app_names \<and> src \<in> resolved_sources app_names rn hide (dependencies m)
      then {dst} else {}) \<union> dependents_of app_names rn hide migs src"
  by (auto simp: dependents_of_def)

lemma migrations_loop_skip:
  "fst dst \<notin> set app_names \<Longrightarrow>
   migrations_loop app_names rn hide ((dst, m) # rest) g =
   migrations_loop app_names rn hide rest g"
  by simp

lemma migrations_loop_step:
  assumes "fst dst \<in> set app_names"
    and "migrations_loop app_names rn hide ((dst, m) # rest) g = Returns g'"
  shows "\<exists>g1. dependencies_loop app_names rn hide dst (dependencies m) g = Returns g1 \<and>
              migrations_loop app_names rn hide rest
                (g1\<lparr>all_nodes := List.insert dst (all_nodes g1)\<rparr>) = Returns g'"
  using assms by (auto split: option.splits run.splits)

lemma migrations_loop_edges:
  "migrations_loop app_names rn hide migs g = Returns g' \<Longrightarrow>
   set (dst_set_of (edges g') x) =
   set (dst_set_of (edges g) x) \<union> dependents_of app_names rn hide migs x"
proof (induction migs arbitrary: g)
  case Nil
  then show ?case by simp
next
  case (Cons p rest)
  obtain dst m where p: "p = (dst, m)" by (cases p)
  show ?case
  proof (cases "fst dst \<in> set app_names")
    case False
    with Cons p show ?thesis by simp
  next
    case True
    from migrations_loop_step [OF True Cons.prems [unfolded p]] obtain g1 where
      g1: "dependencies_loop app_names rn hide dst (dependencies m) g = Returns g1"
      and loop: "migrations_loop app_names rn hide rest
                   (g1\<lparr>all_nodes := List.insert dst (all_nodes g1)\<rparr>) = Returns g'"
      by blast
    from Cons.IH [OF loop] dependencies_loop_graph(1) [OF g1, of x] True
    show ?thesis by (auto simp: p)
  qed
qed

lemma migrations_loop_nodes:
  "migrations_loop app_names rn hide migs g = Returns g' \<Longrightarrow>
   set (all_nodes g') =
   set (all_nodes g) \<union> loaded_here app_names migs \<union>
   {src. dependents_of app_names rn hide migs src \<noteq> {}}"
proof (induction migs arbitrary: g)
  case Nil
  then show ?case by simp
next
  case (Cons p rest)
  obtain dst m where p: "p = (dst, m)" by (cases p)
  show ?case
  proof (cases "fst dst \<in> set app_names")
    case False
    with Cons p show ?thesis by simp
  next
    case True
    from migrations_loop_step [OF True Cons.prems [unfolded p]] obtain g1 where
      g1: "dependencies_loop app_names rn hide dst (dependencies m) g = Returns g1"
      and loop: "migrations_loop app_names rn hide rest
                   (g1\<lparr>all_nodes := List.insert dst (all_nodes g1)\<rparr>) = Returns g'"
      by blast
    from Cons.IH [OF loop] dependencies_loop_graph(2) [OF g1] True
    show ?thesis by (auto simp: p)
  qed
qed

lemma migrations_loop_distinct:
  "migrations_loop app_names rn hide migs g = Returns g' \<Longrightarrow>
   distinct (map fst (edges g)) \<Longrightarrow> distinct (map fst (edges g'))"
proof (induction migs arbitrary: g)
  case Nil
  then show ?case by simp
next
  case (Cons p rest)
  obtain dst m where p: "p = (dst, m)" by (cases p)
  show ?case
  proof (cases "fst dst \<in> set app_names")
    case False
    with Cons p show ?thesis by simp
  next
    case True
    from migrations_loop_step [OF True Cons.prems(1) [unfolded p]] obtain g1 where
      g1: "dependencies_loop app_names rn hide dst (dependencies m) g = Returns g1"
      and loop: "migrations_loop app_names rn hide rest
                   (g1\<lparr>all_nodes := List.insert dst (all_nodes g1)\<rparr>) = Returns g'"
      by blast
    from dependencies_loop_graph(3) [OF g1 Cons.prems(2)] Cons.IH [OF loop]
    show ?thesis by simp
  qed
qed

section \<open>What the rendering emits\<close>

lemma build_graph_loop:
  "build_graph app_names ld hide = Some g \<Longrightarrow>
   migrations_loop app_names (replaced_nodes ld) hide (migrations ld)
     \<lparr> edges = [], all_nodes = [], out = [] \<rparr> = Returns g"
  by (simp add: build_graph_def build_run_def split: run.splits)

lemma build_graph_edges:
  assumes "build_graph app_names ld hide = Some g"
  shows "set (dst_set_of (edges g) x) =
         dependents_of app_names (replaced_nodes ld) hide (migrations ld) x"
proof -
  have "dst_set_of [] x = []" by (simp add: dst_set_of_def)
  with migrations_loop_edges [OF build_graph_loop [OF assms], of x] show ?thesis by simp
qed

lemma build_graph_nodes:
  assumes "build_graph app_names ld hide = Some g"
  shows "set (all_nodes g) =
         loaded_here app_names (migrations ld) \<union>
         {src. dependents_of app_names (replaced_nodes ld) hide (migrations ld) src \<noteq> {}}"
  using migrations_loop_nodes [OF build_graph_loop [OF assms]] by simp

lemma build_graph_distinct:
  assumes "build_graph app_names ld hide = Some g"
  shows "distinct (map fst (edges g))"
  using migrations_loop_distinct [OF build_graph_loop [OF assms]] by simp

lemma node_ids_append [simp]: "node_ids (xs @ ys) = node_ids xs @ node_ids ys"
  by (induction xs rule: node_ids.induct) simp_all

lemma edge_ends_append [simp]: "edge_ends (xs @ ys) = edge_ends xs @ edge_ends ys"
  by (induction xs rule: edge_ends.induct) simp_all

lemma node_line_shape: "\<exists>color label. node_line ld g src = Node src color label"
  by (simp add: node_line_def Let_def del: not_is_in)

lemma node_ids_map_node_line [simp]: "node_ids (map (node_line ld g) xs) = xs"
proof (induction xs)
  case Nil
  then show ?case by simp
next
  case (Cons x xs)
  from node_line_shape [of ld g x] obtain c l where "node_line ld g x = Node x c l" by blast
  with Cons show ?case by simp
qed

lemma edge_ends_map_node_line [simp]: "edge_ends (map (node_line ld g) xs) = []"
proof (induction xs)
  case Nil
  then show ?case by simp
next
  case (Cons x xs)
  from node_line_shape [of ld g x] obtain c l where "node_line ld g x = Node x c l" by blast
  with Cons show ?case by simp
qed

lemma node_ids_map_Edge [simp]: "node_ids (map (\<lambda>(src, dst). Edge src dst) ps) = []"
  by (induction ps) auto

lemma node_ids_map_Edge' [simp]: "node_ids (map (Edge src) ds) = []"
  by (induction ds) auto

lemma node_ids_concat: "(\<And>l. l \<in> set ls \<Longrightarrow> node_ids l = []) \<Longrightarrow> node_ids (concat ls) = []"
  by (induction ls) auto

lemma node_ids_node_lines:
  "set (node_ids (node_lines ld g hide)) =
   {x \<in> set (all_nodes g). \<not> (is_in x (replaced_nodes ld) \<and> hide)}"
  by (simp add: node_lines_def del: not_is_in)

lemma node_ids_replacement_lines [simp]: "node_ids (replacement_lines ld hide) = []"
  by (simp add: replacement_lines_def)

lemma node_ids_edge_lines [simp]: "node_ids (edge_lines ld g hide) = []"
  unfolding edge_lines_def by (rule node_ids_concat) (auto simp del: not_is_in)

lemma node_ids_graph_lines:
  "set (node_ids (graph_lines ld g hide)) =
   {x \<in> set (all_nodes g). \<not> (is_in x (replaced_nodes ld) \<and> hide)}"
  by (simp add: graph_lines_def node_ids_node_lines del: not_is_in)

lemma edge_ends_Edge: "Edge s d \<in> set ls \<Longrightarrow> s \<in> set (edge_ends ls) \<and> d \<in> set (edge_ends ls)"
  by (induction ls rule: edge_ends.induct) auto

lemma edge_ends_cases:
  "x \<in> set (edge_ends ls) \<Longrightarrow> \<exists>s d. Edge s d \<in> set ls \<and> (x = s \<or> x = d)"
proof (induction ls rule: edge_ends.induct)
  case 1
  then show ?case by simp
next
  case (2 src color label ls)
  then show ?case by (simp del: split_paired_Ex; blast)
next
  case (3 src dst ls)
  then show ?case by (simp del: split_paired_Ex; blast)
qed

lemma node_line_not_Edge: "node_line ld g x \<noteq> Edge s d"
  using node_line_shape [of ld g x] by auto

lemma Edge_in_node_lines [simp]: "Edge s d \<notin> set (node_lines ld g hide)"
  by (auto simp: node_lines_def node_line_not_Edge [symmetric] simp del: not_is_in)

lemma Edge_in_replacement_lines:
  "Edge s d \<in> set (replacement_lines ld hide) \<longleftrightarrow> \<not> hide \<and> (s, d) \<in> set (replaced_nodes ld)"
  by (auto simp: replacement_lines_def)

lemma Edge_in_edge_lines:
  "Edge s d \<in> set (edge_lines ld g hide) \<longleftrightarrow>
   (\<exists>ds. (s, ds) \<in> set (edges g) \<and> d \<in> set ds) \<and>
   \<not> (is_in s (replaced_nodes ld) \<and> hide) \<and> \<not> (is_in d (replaced_nodes ld) \<and> hide)"
proof
  assume "Edge s d \<in> set (edge_lines ld g hide)"
  then obtain p where p: "p \<in> set (edges g)"
    and mem: "Edge s d \<in> set (case p of (src, dst_set) \<Rightarrow>
                 if is_in src (replaced_nodes ld) \<and> hide then []
                 else map (Edge src)
                        (filter (\<lambda>dst. \<not> (is_in dst (replaced_nodes ld) \<and> hide))
                           (sort dst_set)))"
    unfolding edge_lines_def by (auto simp del: not_is_in)
  obtain src ds where "p = (src, ds)" by (cases p)
  with p mem show "(\<exists>ds. (s, ds) \<in> set (edges g) \<and> d \<in> set ds) \<and>
                   \<not> (is_in s (replaced_nodes ld) \<and> hide) \<and>
                   \<not> (is_in d (replaced_nodes ld) \<and> hide)"
    by (auto simp del: not_is_in split: if_splits)
next
  assume r: "(\<exists>ds. (s, ds) \<in> set (edges g) \<and> d \<in> set ds) \<and>
             \<not> (is_in s (replaced_nodes ld) \<and> hide) \<and>
             \<not> (is_in d (replaced_nodes ld) \<and> hide)"
  then obtain ds where ds: "(s, ds) \<in> set (edges g)" "d \<in> set ds" by blast
  let ?f = "\<lambda>(src, dst_set).
              if is_in src (replaced_nodes ld) \<and> hide then []
              else map (Edge src)
                     (filter (\<lambda>dst. \<not> (is_in dst (replaced_nodes ld) \<and> hide))
                        (sort dst_set))"
  from r ds have "Edge s d \<in> set (?f (s, ds))" by (auto simp del: not_is_in)
  with ds(1) have "\<exists>p \<in> set (edges g). Edge s d \<in> set (?f p)" by blast
  then show "Edge s d \<in> set (edge_lines ld g hide)"
    unfolding edge_lines_def by (simp del: not_is_in)
qed

lemma dst_set_of_distinct:
  "distinct (map fst es) \<Longrightarrow> (\<exists>ds. (s, ds) \<in> set es \<and> d \<in> set ds) \<longleftrightarrow> d \<in> set (dst_set_of es s)"
proof (cases "map_of es s")
  case None
  then have "\<And>ds. (s, ds) \<notin> set es" by (auto simp: map_of_eq_None_iff image_iff)
  with None show ?thesis by (simp add: dst_set_of_def)
next
  case (Some ds0)
  assume "distinct (map fst es)"
  then have "\<And>ds. (s, ds) \<in> set es \<longleftrightarrow> ds = ds0"
    using Some map_of_SomeD [OF Some] by (auto dest: eq_key_imp_eq_value)
  with Some show ?thesis by (simp add: dst_set_of_def)
qed

lemma Edge_in_graph_lines:
  "Edge s d \<in> set (graph_lines ld g hide) \<longleftrightarrow>
   Edge s d \<in> set (replacement_lines ld hide) \<or> Edge s d \<in> set (edge_lines ld g hide)"
  by (simp add: graph_lines_def)


lemma update_values: "(r, k) \<in> set (AList.update r' k' al) \<Longrightarrow> (r, k) \<in> set al \<or> k = k'"
  by (induction al) (auto split: if_splits)

lemma replaces_loop_values:
  "(r, k) \<in> set (replaces_loop app_names me es rn) \<Longrightarrow> (r, k) \<in> set rn \<or> k = me"
  by (induction app_names me es rn rule: replaces_loop.induct)
     (auto dest: update_values split: if_splits)

lemma migrations_load_module [simp]:
  "migrations (load_module app_names a m st) =
   AList.update (a, migration_name m) m (migrations st)"
  by (simp add: load_module_def Let_def)

lemma files_loop_values:
  assumes "a \<in> set app_names"
    and "\<forall>(r, k) \<in> set (replaced_nodes st). k \<in> fst ` set (migrations st) \<and> fst k \<in> set app_names"
  shows "\<forall>(r, k) \<in> set (replaced_nodes (files_loop app_names a ms st)).
           k \<in> fst ` set (migrations (files_loop app_names a ms st)) \<and> fst k \<in> set app_names"
  using assms(2)
proof (induction ms arbitrary: st)
  case Nil
  then show ?case by simp
next
  case (Cons m ms)
  have "\<forall>(r, k) \<in> set (replaced_nodes (load_module app_names a m st)).
          k \<in> fst ` set (migrations (load_module app_names a m st)) \<and> fst k \<in> set app_names"
  proof (clarify)
    fix r k1 k2
    assume "(r, (k1, k2)) \<in> set (replaced_nodes (load_module app_names a m st))"
    then have "(r, (k1, k2)) \<in> set (replaced_nodes st) \<or> (k1, k2) = (a, migration_name m)"
      using replaces_loop_values [of r "(k1, k2)" app_names "(a, migration_name m)" "replaces m" "replaced_nodes st"]
      by simp
    with Cons.prems assms(1)
    show "(k1, k2) \<in> fst ` set (migrations (load_module app_names a m st)) \<and>
          fst (k1, k2) \<in> set app_names"
      by (auto simp: dom_update)
  qed
  from Cons.IH [OF this] show ?case by simp
qed

lemma apps_loop_values:
  assumes "set as \<subseteq> set app_names"
    and "\<forall>(r, k) \<in> set (replaced_nodes st). k \<in> fst ` set (migrations st) \<and> fst k \<in> set app_names"
  shows "\<forall>(r, k) \<in> set (replaced_nodes (apps_loop app_names d as st)).
           k \<in> fst ` set (migrations (apps_loop app_names d as st)) \<and> fst k \<in> set app_names"
  using assms
proof (induction as arbitrary: st)
  case Nil
  then show ?case by simp
next
  case (Cons a as)
  show ?case
  proof (cases "d a")
    case None
    with Cons show ?thesis by simp
  next
    case (Some ms)
    from Cons.prems have "a \<in> set app_names" by simp
    from files_loop_values [OF this Cons.prems(2), of ms] Cons.IH [of "files_loop app_names a ms st"]
      Cons.prems(1) Some
    show ?thesis by simp
  qed
qed

lemma read_replacement_loaded:
  assumes "(r, k) \<in> set (replaced_nodes (read_migrations app_names d))"
  shows "k \<in> loaded_here app_names (migrations (read_migrations app_names d))"
proof -
  have "\<forall>(r, k) \<in> set (replaced_nodes (read_migrations app_names d)).
          k \<in> fst ` set (migrations (read_migrations app_names d)) \<and> fst k \<in> set app_names"
    unfolding read_migrations_def by (rule apps_loop_values) simp_all
  with assms have "k \<in> fst ` set (migrations (read_migrations app_names d))"
    and "fst k \<in> set app_names" by auto
  then show ?thesis by (auto simp: loaded_here_def)
qed

lemma is_in_set: "distinct (map fst al) \<Longrightarrow> (k, v) \<in> set al \<longleftrightarrow> map_of al k = Some v"
  by simp

section \<open>Resolution of a dependency\<close>

lemma resolve_not_hidden: "resolve rn False src = Some src"
  by (subst resolve.simps) (simp split: option.splits)

lemma resolve_not_key: "map_of rn src = None \<Longrightarrow> resolve rn hide src = Some src"
  by (subst resolve.simps) simp

lemma resolve_key: "map_of rn src = Some nxt \<Longrightarrow> resolve rn True src = resolve rn True nxt"
  by (subst resolve.simps) simp

lemma follow_not_key: "map_of rn src = None \<Longrightarrow> follow rn n src = src"
  by (cases n) simp_all

lemma follow_add: "follow rn (i + k) src = follow rn k (follow rn i src)"
proof (induction i arbitrary: src)
  case 0
  then show ?case by simp
next
  case (Suc i)
  then show ?case
    by (cases "map_of rn src") (simp_all add: follow_not_key)
qed

lemma resolve_follow:
  "\<not> is_in (follow rn n src) rn \<Longrightarrow> resolve rn True src = Some (follow rn n src)"
proof (induction n arbitrary: src)
  case 0
  then show ?case by (simp add: resolve_not_key)
next
  case (Suc n)
  show ?case
  proof (cases "map_of rn src")
    case None
    then show ?thesis by (simp add: resolve_not_key)
  next
    case (Some nxt)
    with Suc show ?thesis by (simp add: resolve_key)
  qed
qed

lemma resolve_Some_follow:
  assumes "resolve rn hide src = Some r"
  shows "hide \<longrightarrow> (\<exists>n. follow rn n src = r \<and> \<not> is_in r rn)"
proof (rule resolve.raw_induct [OF _ assms])
  fix f :: "(rid \<times> rid) list \<Rightarrow> bool \<Rightarrow> rid \<Rightarrow> rid option" and rn hide src r
  assume IH: "\<And>rn hide src r. f rn hide src = Some r \<Longrightarrow>
                hide \<longrightarrow> (\<exists>n. follow rn n src = r \<and> \<not> is_in r rn)"
    and eq: "(case map_of rn src of None \<Rightarrow> Some src
              | Some nxt \<Rightarrow> if hide then f rn hide nxt else Some src) = Some r"
  show "hide \<longrightarrow> (\<exists>n. follow rn n src = r \<and> \<not> is_in r rn)"
  proof
    assume hide
    show "\<exists>n. follow rn n src = r \<and> \<not> is_in r rn"
    proof (cases "map_of rn src")
      case None
      with eq have "follow rn 0 src = r \<and> \<not> is_in r rn" by auto
      then show ?thesis by blast
    next
      case (Some nxt)
      with eq \<open>hide\<close> have "f rn hide nxt = Some r" by simp
      from IH [OF this] \<open>hide\<close> obtain n where "follow rn n nxt = r \<and> \<not> is_in r rn" by blast
      with Some have "follow rn (Suc n) src = r \<and> \<not> is_in r rn" by simp
      then show ?thesis by blast
    qed
  qed
qed

lemma resolve_cycle_None:
  assumes "\<forall>n. is_in (follow rn n src) rn"
  shows "resolve rn True src = None"
proof (rule ccontr)
  assume "resolve rn True src \<noteq> None"
  then obtain r where "resolve rn True src = Some r" by auto
  from resolve_Some_follow [OF this] assms show False by (auto simp: is_in_def)
qed

lemma keys_bound: "card {k. is_in k rn} \<le> length rn"
proof -
  have "{k. is_in k rn} = fst ` set rn"
    by (auto simp: is_in_fst)
  then show ?thesis
    by (metis card_image_le card_length le_trans List.finite_set)
qed

lemma first_exit_bound:
  assumes exit: "\<not> is_in (follow rn n src) rn"
    and least: "\<forall>i < n. is_in (follow rn i src) rn"
  shows "n \<le> length rn"
proof -
  let ?f = "\<lambda>i. follow rn i src"
  have inj: "inj_on ?f {..<n}"
  proof (rule inj_onI, rule ccontr)
    fix i j assume ij: "i \<in> {..<n}" "j \<in> {..<n}" "?f i = ?f j" "i \<noteq> j"
    define a where "a = min i j"
    define b where "b = max i j"
    have ab: "a < b" "b < n" "?f a = ?f b"
      using ij by (auto simp: a_def b_def min_def max_def)
    have "is_in (?f m) rn" for m
    proof (induction m rule: less_induct)
      case (less m)
      show ?case
      proof (cases "m < n")
        case True
        with least show ?thesis by simp
      next
        case False
        with ab have "m = b + (m - b)" "a + (m - b) < m" by auto
        moreover have "?f (b + (m - b)) = ?f (a + (m - b))"
          using ab by (simp only: follow_add)
        ultimately show ?thesis using less.IH [of "a + (m - b)"] by metis
      qed
    qed
    with exit show False by blast
  qed
  have "?f ` {..<n} \<subseteq> {k. is_in k rn}" using least by auto
  then have "card (?f ` {..<n}) \<le> card {k. is_in k rn}"
    by (intro card_mono) (simp_all add: is_in_fst)
  with inj have "n \<le> card {k. is_in k rn}" by (simp add: card_image)
  with keys_bound [of rn] show ?thesis by linarith
qed

lemma exit_bounded:
  assumes "\<not> is_in (follow rn n src) rn"
  shows "\<exists>m \<le> length rn. \<not> is_in (follow rn m src) rn \<and> follow rn m src = follow rn n src"
proof -
  define m where "m = (LEAST m. \<not> is_in (follow rn m src) rn)"
  have m: "\<not> is_in (follow rn m src) rn" unfolding m_def using assms by (rule LeastI)
  have least: "\<forall>i < m. is_in (follow rn i src) rn"
    unfolding m_def using not_less_Least by blast
  have "m \<le> n" unfolding m_def using assms by (rule Least_le)
  then have "follow rn n src = follow rn (n - m) (follow rn m src)"
    using follow_add [of rn m "n - m" src] by simp
  with m have "follow rn n src = follow rn m src" by (simp add: follow_not_key)
  with m first_exit_bound [OF m least] show ?thesis by auto
qed

lemma cycle_disk_replaced:
  "replaced_nodes (read_migrations [''a''] cycle_disk) =
   [((''a'', ''2''), (''a'', ''1'')), ((''a'', ''1''), (''a'', ''2''))]"
  by code_simp

lemma cycle_disk_migrations:
  "migrations (read_migrations [''a''] cycle_disk) =
   [((''a'', ''1''), module ''1'' [] [Tuple ''a'' ''2'']),
    ((''a'', ''2''), module ''2'' [] [Tuple ''a'' ''1'']),
    ((''a'', ''3''), module ''3'' [Tuple ''a'' ''1''] [])]"
  by code_simp

lemma cycle_stays:
  "src = (''a'', ''1'') \<or> src = (''a'', ''2'') \<Longrightarrow>
   follow [((''a'', ''2''), (''a'', ''1'')), ((''a'', ''1''), (''a'', ''2''))] n src = (''a'', ''1'') \<or>
   follow [((''a'', ''2''), (''a'', ''1'')), ((''a'', ''1''), (''a'', ''2''))] n src = (''a'', ''2'')"
proof (induction n arbitrary: src)
  case 0
  then show ?case by simp
next
  case (Suc n)
  from Suc.prems show ?case
  proof
    assume "src = (''a'', ''1'')"
    then show ?thesis using Suc.IH [of "(''a'', ''2'')"] by simp
  next
    assume "src = (''a'', ''2'')"
    then show ?thesis using Suc.IH [of "(''a'', ''1'')"] by simp
  qed
qed

lemma cycle_never_exits:
  "is_in (follow (replaced_nodes (read_migrations [''a''] cycle_disk)) n (''a'', ''1''))
     (replaced_nodes (read_migrations [''a''] cycle_disk))"
  unfolding cycle_disk_replaced
  using cycle_stays [of "(''a'', ''1'')" n] by (auto simp: is_in_def)

lemma chain_disk_replaced:
  "replaced_nodes (read_migrations [''a''] chain_disk) =
   [((''a'', ''1''), (''a'', ''2'')), ((''a'', ''2''), (''a'', ''3''))]"
  by code_simp

text \<open>
  C1, as the code has it. With hiding off the loop of lines 85 and 86 does not run. With
  hiding on it returns exactly when the chain of replacements that starts at the
  dependency reaches an identifier that is not a key of the replacement map, after at
  most as many steps as the map has entries, with that identifier; when every identifier
  of the chain is a key (the chain runs into a cycle), the loop never exits.
\<close>

theorem resolve_terminates_iff:
  "resolve rn False src = Some src \<and>
   ((\<exists>n. \<not> is_in (follow rn n src) rn) \<longrightarrow>
      (\<exists>n \<le> length rn. \<not> is_in (follow rn n src) rn \<and>
                        resolve rn True src = Some (follow rn n src))) \<and>
   ((\<forall>n. is_in (follow rn n src) rn) \<longrightarrow> resolve rn True src = None)"
proof (intro conjI impI)
  show "resolve rn False src = Some src" by (rule resolve_not_hidden)
next
  assume "\<exists>n. \<not> is_in (follow rn n src) rn"
  then obtain n where "\<not> is_in (follow rn n src) rn" ..
  from exit_bounded [OF this] obtain m where
    "m \<le> length rn" "\<not> is_in (follow rn m src) rn" by blast
  then show "\<exists>n \<le> length rn. \<not> is_in (follow rn n src) rn \<and>
                        resolve rn True src = Some (follow rn n src)"
    using resolve_follow by blast
next
  assume "\<forall>n. is_in (follow rn n src) rn"
  then show "resolve rn True src = None" by (rule resolve_cycle_None)
qed


theorem resolve_terminates_iff_witness:
  "(\<exists>n \<le> 2. resolve (replaced_nodes (read_migrations [''a''] chain_disk)) True (''a'', ''1'') =
             Some (follow (replaced_nodes (read_migrations [''a''] chain_disk)) n (''a'', ''1''))) \<and>
   resolve (replaced_nodes (read_migrations [''a''] cycle_disk)) True (''a'', ''1'') = None"
proof
  let ?rn = "replaced_nodes (read_migrations [''a''] chain_disk)"
  have "\<not> is_in (follow ?rn 2 (''a'', ''1'')) ?rn"
    unfolding chain_disk_replaced by (simp add: numeral_2_eq_2)
  then have "\<exists>n. \<not> is_in (follow ?rn n (''a'', ''1'')) ?rn" ..
  moreover have "length ?rn = 2" unfolding chain_disk_replaced by simp
  ultimately show "\<exists>n \<le> 2. resolve ?rn True (''a'', ''1'') = Some (follow ?rn n (''a'', ''1''))"
    using resolve_terminates_iff [of ?rn "(''a'', ''1'')"] by auto
next
  let ?rn = "replaced_nodes (read_migrations [''a''] cycle_disk)"
  have "\<forall>n. is_in (follow ?rn n (''a'', ''1'')) ?rn"
    using cycle_never_exits by blast
  then show "resolve ?rn True (''a'', ''1'') = None"
    using resolve_terminates_iff [of ?rn "(''a'', ''1'')"] by blast
qed

text \<open>
  C1 as stated says that the loop terminates on a cycle. With two records that replace
  each other and a third that depends on one of them, building the graph does not return.
\<close>

theorem resolve_cycle_counterexample:
  "build_graph [''a''] (read_migrations [''a''] cycle_disk) True = None"
proof -
  let ?rn = "replaced_nodes (read_migrations [''a''] cycle_disk)"
  have "\<forall>n. is_in (follow ?rn n (''a'', ''1'')) ?rn"
    using cycle_never_exits by blast
  then have "resolve ?rn True (''a'', ''1'') = None"
    by (rule resolve_cycle_None)
  then show ?thesis
    by (simp add: build_graph_def build_run_def cycle_disk_migrations module_def)
qed


section \<open>When the graph building returns, and what it prints\<close>

lemma follow_stays:
  assumes "\<not> is_in (follow rn m src) rn" and "m \<le> n"
  shows "follow rn n src = follow rn m src"
proof -
  from assms(2) have "follow rn n src = follow rn (n - m) (follow rn m src)"
    using follow_add [of rn m "n - m" src] by simp
  with assms(1) show ?thesis by (simp add: follow_not_key)
qed

lemma chain_ends_iff: "chain_ends rn src \<longleftrightarrow> (\<exists>n. \<not> is_in (follow rn n src) rn)"
proof
  assume "chain_ends rn src"
  then show "\<exists>n. \<not> is_in (follow rn n src) rn"
    unfolding chain_ends_def by blast
next
  assume "\<exists>n. \<not> is_in (follow rn n src) rn"
  then obtain n where "\<not> is_in (follow rn n src) rn" ..
  from exit_bounded [OF this] obtain m where
    m: "m \<le> length rn" "\<not> is_in (follow rn m src) rn" by blast
  from follow_stays [OF m(2) m(1)] m(2) show "chain_ends rn src"
    unfolding chain_ends_def by simp
qed

lemma resolve_None_iff: "resolve rn hide src = None \<longleftrightarrow> hide \<and> \<not> chain_ends rn src"
proof (cases hide)
  case False
  then show ?thesis by (simp add: resolve_not_hidden)
next
  case True
  show ?thesis
  proof (cases "chain_ends rn src")
    case ends: True
    then obtain n where "\<not> is_in (follow rn n src) rn" unfolding chain_ends_iff ..
    from resolve_follow [OF this] ends True show ?thesis by simp
  next
    case False
    then have "\<forall>n. is_in (follow rn n src) rn" unfolding chain_ends_iff by blast
    from resolve_cycle_None [OF this] False True show ?thesis by simp
  qed
qed

lemma resolves_Tuple: "resolves rn hide (Tuple a b) \<longleftrightarrow> resolve rn hide (a, b) \<noteq> None"
  by (simp add: resolve_None_iff)

lemma fst_substitution_notice:
  "fst (substitution_notice rn original_src src dst) = (if is_in dst rn then ERROR else SUCCESS)"
  unfolding substitution_notice_def by (cases "is_in dst rn") (simp_all del: not_is_in)

lemma out_register_diagnostic:
  assumes "resolve rn hide (a, b) = Some src"
  shows "out (register_dependency app_names rn dst (a, b) src g) =
         out g @ diagnostic rn hide dst (Tuple a b)"
proof -
  have "substitution_notice rn (a, b) src dst =
        (if is_in dst rn then ERROR else SUCCESS, snd (substitution_notice rn (a, b) src dst))"
    using fst_substitution_notice [of rn "(a, b)" src dst]
    by (cases "substitution_notice rn (a, b) src dst") (simp del: not_is_in)
  with assms show ?thesis by (simp del: not_is_in)
qed

lemma dependencies_loop_returns:
  "(\<exists>g'. dependencies_loop app_names rn hide dst es g = Returns g') \<longleftrightarrow>
   list_all (resolves rn hide) es"
proof (induction app_names rn hide dst es g rule: dependencies_loop.induct)
  case (1 app_names rn hide dst g)
  then show ?case by simp
next
  case (2 app_names rn hide dst uu rest g)
  then show ?case by simp
next
  case (3 app_names rn hide dst a b rest g)
  show ?case
  proof (cases "resolve rn hide (a, b)")
    case None
    then have "\<not> resolves rn hide (Tuple a b)" unfolding resolves_Tuple by simp
    with None show ?thesis by simp
  next
    case (Some src)
    then have "resolves rn hide (Tuple a b)" unfolding resolves_Tuple by simp
    with Some "3.IH" [OF Some] show ?thesis by simp
  qed
qed

lemma dependencies_loop_printed:
  "printed (dependencies_loop app_names rn hide dst es g) =
   out g @ concat (map (diagnostic rn hide dst) (takeWhile (resolves rn hide) es))"
proof (induction app_names rn hide dst es g rule: dependencies_loop.induct)
  case (1 app_names rn hide dst g)
  then show ?case by simp
next
  case (2 app_names rn hide dst uu rest g)
  then show ?case by simp
next
  case (3 app_names rn hide dst a b rest g)
  show ?case
  proof (cases "resolve rn hide (a, b)")
    case None
    then have "\<not> resolves rn hide (Tuple a b)" unfolding resolves_Tuple by simp
    with None show ?thesis by simp
  next
    case (Some src)
    then have r: "resolves rn hide (Tuple a b)" unfolding resolves_Tuple by simp
    have "printed (dependencies_loop app_names rn hide dst (Tuple a b # rest) g) =
          printed (dependencies_loop app_names rn hide dst rest
                     (register_dependency app_names rn dst (a, b) src g))"
      using Some by simp
    also have "\<dots> = out (register_dependency app_names rn dst (a, b) src g) @
                     concat (map (diagnostic rn hide dst) (takeWhile (resolves rn hide) rest))"
      by (rule "3.IH" [OF Some])
    also have "\<dots> = out g @ diagnostic rn hide dst (Tuple a b) @
                     concat (map (diagnostic rn hide dst) (takeWhile (resolves rn hide) rest))"
      unfolding out_register_diagnostic [OF Some] by simp
    also have "\<dots> = out g @ concat (map (diagnostic rn hide dst)
                                      (takeWhile (resolves rn hide) (Tuple a b # rest)))"
      using r by simp
    finally show ?thesis .
  qed
qed

lemma occurrences_Cons:
  "occurrences app_names ((dst, m) # migs) =
   (if fst dst \<in> set app_names then map (Pair dst) (dependencies m) else []) @
   occurrences app_names migs"
  by (simp add: occurrences_def)

lemma takeWhile_pairs:
  "takeWhile (\<lambda>(dst, e). P e) (map (Pair dst) es) = map (Pair dst) (takeWhile P es)"
  by (induction es) simp_all

lemma migrations_loop_returns:
  "(\<exists>g'. migrations_loop app_names rn hide migs g = Returns g') \<longleftrightarrow>
   every_chain_ends app_names rn hide migs"
proof (induction migs arbitrary: g)
  case Nil
  then show ?case by (simp add: every_chain_ends_def occurrences_def)
next
  case (Cons p migs)
  obtain dst m where p: "p = (dst, m)" by (cases p)
  have split: "every_chain_ends app_names rn hide ((dst, m) # migs) \<longleftrightarrow>
               (fst dst \<in> set app_names \<longrightarrow> list_all (resolves rn hide) (dependencies m)) \<and>
               every_chain_ends app_names rn hide migs"
    by (auto simp: every_chain_ends_def occurrences_Cons list_all_iff)
  show ?case
  proof (cases "fst dst \<in> set app_names")
    case False
    with Cons.IH [of g] show ?thesis unfolding p split by simp
  next
    case True
    show ?thesis
    proof (cases "dependencies_loop app_names rn hide dst (dependencies m) g")
      case (Returns g1)
      then have "list_all (resolves rn hide) (dependencies m)"
        using dependencies_loop_returns [of app_names rn hide dst "dependencies m" g] by blast
      with True Returns Cons.IH [of "g1\<lparr>all_nodes := List.insert dst (all_nodes g1)\<rparr>"]
      show ?thesis unfolding p split by simp
    next
      case (Hangs g1)
      then have "\<not> list_all (resolves rn hide) (dependencies m)"
        using dependencies_loop_returns [of app_names rn hide dst "dependencies m" g] by auto
      with True Hangs show ?thesis unfolding p split by simp
    qed
  qed
qed

lemma migrations_loop_printed:
  "printed (migrations_loop app_names rn hide migs g) =
   out g @ expected_diagnostics app_names rn hide migs"
proof (induction migs arbitrary: g)
  case Nil
  then show ?case by (simp add: expected_diagnostics_def occurrences_def)
next
  case (Cons p migs)
  obtain dst m where p: "p = (dst, m)" by (cases p)
  let ?P = "\<lambda>(dst, e). resolves rn hide e"
  show ?case
  proof (cases "fst dst \<in> set app_names")
    case False
    with Cons.IH [of g] show ?thesis
      by (simp add: p expected_diagnostics_def occurrences_Cons)
  next
    case True
    note pr = dependencies_loop_printed [of app_names rn hide dst "dependencies m" g]
    show ?thesis
    proof (cases "dependencies_loop app_names rn hide dst (dependencies m) g")
      case (Returns g1)
      then have all: "list_all (resolves rn hide) (dependencies m)"
        using dependencies_loop_returns [of app_names rn hide dst "dependencies m" g] by blast
      then have tw: "takeWhile (resolves rn hide) (dependencies m) = dependencies m"
        by (simp add: list_all_iff)
      from all have "takeWhile ?P (map (Pair dst) (dependencies m) @ occurrences app_names migs) =
                 map (Pair dst) (dependencies m) @ takeWhile ?P (occurrences app_names migs)"
        by (intro takeWhile_append2) (auto simp: list_all_iff)
      then have "expected_diagnostics app_names rn hide ((dst, m) # migs) =
                 concat (map (diagnostic rn hide dst) (dependencies m)) @
                 expected_diagnostics app_names rn hide migs"
        using True by (simp add: expected_diagnostics_def occurrences_Cons comp_def)
      moreover from pr Returns tw
      have "out g1 = out g @ concat (map (diagnostic rn hide dst) (dependencies m))" by simp
      ultimately show ?thesis
        using True Returns Cons.IH [of "g1\<lparr>all_nodes := List.insert dst (all_nodes g1)\<rparr>"]
        by (simp add: p)
    next
      case (Hangs g1)
      then have "\<not> list_all (resolves rn hide) (dependencies m)"
        using dependencies_loop_returns [of app_names rn hide dst "dependencies m" g] by auto
      then obtain e where e: "e \<in> set (dependencies m)" "\<not> resolves rn hide e"
        by (auto simp: list_all_iff)
      then have "(dst, e) \<in> set (map (Pair dst) (dependencies m))" "\<not> ?P (dst, e)" by auto
      then have "takeWhile ?P (map (Pair dst) (dependencies m) @ occurrences app_names migs) =
                 takeWhile ?P (map (Pair dst) (dependencies m))"
        by (rule takeWhile_append1)
      then have "expected_diagnostics app_names rn hide ((dst, m) # migs) =
                 concat (map (diagnostic rn hide dst)
                           (takeWhile (resolves rn hide) (dependencies m)))"
        using True
        by (simp add: expected_diagnostics_def occurrences_Cons takeWhile_pairs comp_def)
      with pr Hangs True show ?thesis by (simp add: p)
    qed
  qed
qed

lemma build_graph_returns:
  "(\<exists>g. build_graph app_names ld hide = Some g) \<longleftrightarrow>
   every_chain_ends app_names (replaced_nodes ld) hide (migrations ld)"
proof -
  have "(\<exists>g. build_graph app_names ld hide = Some g) \<longleftrightarrow>
        (\<exists>g. build_run app_names ld hide = Returns g)"
    by (cases "build_run app_names ld hide") (simp_all add: build_graph_def)
  then show ?thesis unfolding build_run_def migrations_loop_returns .
qed

section \<open>Dangling references and hidden nodes\<close>

text \<open>
  C2, as the code has it. For a graph built from the records read: both ends of every
  regular edge line have a node line; the destination of every replacement edge line
  (emitted when replaced records are shown) has a node line, and its source has one
  exactly when it was registered as a node, that is when it is a loaded record or a
  dependency that was kept; and when replaced records are hidden, no key of the
  replacement map occurs in a node line or in an edge line.
\<close>

theorem no_dangling_regular_edges:
  assumes "build_graph app_names (read_migrations app_names d) hide = Some g"
  shows
    "(\<forall>s t. Edge s t \<in> set (edge_lines (read_migrations app_names d) g hide) \<longrightarrow>
         s \<in> set (node_ids (graph_lines (read_migrations app_names d) g hide)) \<and>
         t \<in> set (node_ids (graph_lines (read_migrations app_names d) g hide))) \<and>
     (\<forall>s t. Edge s t \<in> set (replacement_lines (read_migrations app_names d) hide) \<longrightarrow>
         t \<in> set (node_ids (graph_lines (read_migrations app_names d) g hide)) \<and>
         (s \<in> set (node_ids (graph_lines (read_migrations app_names d) g hide)) \<longleftrightarrow>
          s \<in> set (all_nodes g))) \<and>
     (hide \<longrightarrow>
        (\<forall>k. is_in k (replaced_nodes (read_migrations app_names d)) \<longrightarrow>
           k \<notin> set (node_ids (graph_lines (read_migrations app_names d) g hide)) \<and>
           k \<notin> set (edge_ends (graph_lines (read_migrations app_names d) g hide))))"
proof (intro conjI allI impI)
  let ?ld = "read_migrations app_names d"
  let ?rn = "replaced_nodes ?ld"
  note nodes = build_graph_nodes [OF assms]
  note edges = build_graph_edges [OF assms]
  note dist = build_graph_distinct [OF assms]
  note ids = node_ids_graph_lines [of ?ld g hide]
  { fix s t assume "Edge s t \<in> set (edge_lines ?ld g hide)"
    then have t: "t \<in> set (dst_set_of (edges g) s)"
      and vis: "\<not> (is_in s ?rn \<and> hide)" "\<not> (is_in t ?rn \<and> hide)"
      unfolding Edge_in_edge_lines dst_set_of_distinct [OF dist] by blast+
    from t have dep: "t \<in> dependents_of app_names ?rn hide (migrations ?ld) s"
      by (simp add: edges)
    then have "s \<in> set (all_nodes g)" unfolding nodes by blast
    with vis show "s \<in> set (node_ids (graph_lines ?ld g hide))" unfolding ids by blast
    from dep have "t \<in> loaded_here app_names (migrations ?ld)"
      by (auto simp: dependents_of_def loaded_here_def)
    then have "t \<in> set (all_nodes g)" unfolding nodes by blast
    with vis show "t \<in> set (node_ids (graph_lines ?ld g hide))" unfolding ids by blast }
  { fix s t assume "Edge s t \<in> set (replacement_lines ?ld hide)"
    then have nh: "\<not> hide" and "(s, t) \<in> set ?rn"
      unfolding Edge_in_replacement_lines by blast+
    from read_replacement_loaded [OF this(2)] have "t \<in> set (all_nodes g)"
      unfolding nodes by blast
    with nh show "t \<in> set (node_ids (graph_lines ?ld g hide))" unfolding ids by blast
    from nh show "s \<in> set (node_ids (graph_lines ?ld g hide)) \<longleftrightarrow> s \<in> set (all_nodes g)"
      unfolding ids by blast }
  { fix k assume hide: hide and k: "is_in k ?rn"
    then show "k \<notin> set (node_ids (graph_lines ?ld g hide))" unfolding ids by blast
    show "k \<notin> set (edge_ends (graph_lines ?ld g hide))"
    proof
      assume "k \<in> set (edge_ends (graph_lines ?ld g hide))"
      from edge_ends_cases [OF this] obtain s t where
        st: "Edge s t \<in> set (graph_lines ?ld g hide)" "k = s \<or> k = t" by blast
      from st(1) hide have "Edge s t \<in> set (edge_lines ?ld g hide)"
        unfolding Edge_in_graph_lines Edge_in_replacement_lines by blast
      then have "\<not> is_in s ?rn" "\<not> is_in t ?rn"
        unfolding Edge_in_edge_lines using hide by blast+
      with st(2) k show False by blast
    qed }
qed


theorem no_dangling_regular_edges_witness:
  "\<exists>g. build_graph [''a''] (read_migrations [''a''] squash_disk) True = Some g \<and>
       Edge (''a'', ''3'') (''a'', ''4'') \<in> set (edge_lines (read_migrations [''a''] squash_disk) g True) \<and>
       (''a'', ''3'') \<in> set (node_ids (graph_lines (read_migrations [''a''] squash_disk) g True)) \<and>
       (''a'', ''4'') \<in> set (node_ids (graph_lines (read_migrations [''a''] squash_disk) g True)) \<and>
       (''a'', ''2'') \<notin> set (node_ids (graph_lines (read_migrations [''a''] squash_disk) g True)) \<and>
       (''a'', ''2'') \<notin> set (edge_ends (graph_lines (read_migrations [''a''] squash_disk) g True))"
proof -
  let ?ld = "read_migrations [''a''] squash_disk"
  let ?g = "the (build_graph [''a''] ?ld True)"
  have b: "build_graph [''a''] ?ld True = Some ?g" by code_simp
  have e: "Edge (''a'', ''3'') (''a'', ''4'') \<in> set (edge_lines ?ld ?g True)" by code_simp
  have k: "is_in (''a'', ''2'') (replaced_nodes ?ld)" by code_simp
  from no_dangling_regular_edges [OF b] e k
  have "(''a'', ''3'') \<in> set (node_ids (graph_lines ?ld ?g True)) \<and>
        (''a'', ''4'') \<in> set (node_ids (graph_lines ?ld ?g True)) \<and>
        (''a'', ''2'') \<notin> set (node_ids (graph_lines ?ld ?g True)) \<and>
        (''a'', ''2'') \<notin> set (edge_ends (graph_lines ?ld ?g True))"
    by blast
  with b e show ?thesis by blast
qed

text \<open>
  C2 as stated says that the source of a replacement edge always has a node line. When
  the replaced record \<^verbatim>\<open>("a", "1")\<close> is not on the disk any more and nothing
  depends on it, showing replaced records emits the edge from it with no node line for it.
\<close>

theorem dangling_replacement_edge_counterexample:
  "render_graph [''a''] dangling_disk False =
     Some [Node (''a'', ''3'') ''#79aec8'' ''a:3 (squash)'', Edge (''a'', ''1'') (''a'', ''3'')] \<and>
   (''a'', ''1'') \<in> set (edge_ends
      [Node (''a'', ''3'') ''#79aec8'' ''a:3 (squash)'', Edge (''a'', ''1'') (''a'', ''3'')]) \<and>
   (''a'', ''1'') \<notin> set (node_ids
      [Node (''a'', ''3'') ''#79aec8'' ''a:3 (squash)'', Edge (''a'', ''1'') (''a'', ''3'')])"
  by code_simp


section \<open>Substitution diagnostics\<close>

text \<open>
  C9. What the graph building prints is, in the order the records and their dependencies
  are visited, one notice for each dependency pair whose resolved identifier differs from
  the declared one and none for the others; the notice is styled as an error when the
  dependent record is a key of the replacement map and as a success otherwise. This
  holds however the building ends: when the resolution of a dependency never terminates,
  the notices are those of the dependencies visited before it. (By lemma
  \<open>build_graph_returns\<close> the building returns exactly when the chain of every
  dependency leaves the keys of the replacement map, or hiding is off.)
\<close>

theorem substitution_diagnostics:
  "printed (build_run app_names ld hide) =
   expected_diagnostics app_names (replaced_nodes ld) hide (migrations ld)"
  unfolding build_run_def by (simp add: migrations_loop_printed)

theorem substitution_diagnostics_witness:
  "map fst (printed (build_run [''a''] (read_migrations [''a''] squash_disk) True)) =
     [ERROR, SUCCESS] \<and>
   map fst (printed (build_run [''a''] (read_migrations [''a''] hang_disk) True)) =
     [SUCCESS] \<and>
   build_graph [''a''] (read_migrations [''a''] hang_disk) True = None"
proof (intro conjI)
  have "map fst (expected_diagnostics [''a''] (replaced_nodes (read_migrations [''a''] squash_disk))
                   True (migrations (read_migrations [''a''] squash_disk))) =
        [ERROR, SUCCESS]"
    by code_simp
  then show "map fst (printed (build_run [''a''] (read_migrations [''a''] squash_disk) True)) =
             [ERROR, SUCCESS]"
    unfolding substitution_diagnostics .
next
  have "map fst (expected_diagnostics [''a''] (replaced_nodes (read_migrations [''a''] hang_disk))
                   True (migrations (read_migrations [''a''] hang_disk))) =
        [SUCCESS]"
    by code_simp
  then show "map fst (printed (build_run [''a''] (read_migrations [''a''] hang_disk) True)) =
             [SUCCESS]"
    unfolding substitution_diagnostics .
next
  have "\<not> every_chain_ends [''a''] (replaced_nodes (read_migrations [''a''] hang_disk)) True
            (migrations (read_migrations [''a''] hang_disk))"
    by code_simp
  then have "\<not> (\<exists>g. build_graph [''a''] (read_migrations [''a''] hang_disk) True = Some g)"
    unfolding build_graph_returns .
  then show "build_graph [''a''] (read_migrations [''a''] hang_disk) True = None"
    by simp
qed

section \<open>Transitive redirection\<close>

text \<open>
  C4. Take a replacement chain that ends at \<open>C\<close>: \<open>A\<close> is replaced by \<open>B\<close>, \<open>B\<close> by
  \<open>C\<close>, and \<open>C\<close> is not a key of the replacement map. When replaced records are hidden,
  a dependency that the record \<open>dst\<close> declares on \<open>A\<close> resolves to \<open>C\<close>. When moreover
  the chain of every dependency of the run ends, the building returns a graph, in which
  \<open>dst\<close> is among the destinations of \<open>C\<close>; the edge line from \<open>C\<close> to \<open>dst\<close> is
  emitted unless \<open>dst\<close> is itself replaced (and so hidden), and no edge line from \<open>A\<close>
  or from \<open>B\<close> to \<open>dst\<close> is emitted. (That \<open>A\<close>, \<open>B\<close> and \<open>C\<close> are distinct follows
  from the three hypotheses on the replacement map.)
\<close>

theorem transitive_redirection:
  assumes ab: "map_of (replaced_nodes ld) A = Some B"
    and bc: "map_of (replaced_nodes ld) B = Some C"
    and c: "\<not> is_in C (replaced_nodes ld)"
    and dst: "(dst, m) \<in> set (migrations ld)" "fst dst \<in> set app_names"
    and dep: "Tuple (fst A) (snd A) \<in> set (dependencies m)"
    and grp: "fst C \<in> set app_names"
    and ends: "every_chain_ends app_names (replaced_nodes ld) True (migrations ld)"
  shows "resolve (replaced_nodes ld) True A = Some C \<and>
         (\<exists>g. build_graph app_names ld True = Some g \<and>
              dst \<in> set (dst_set_of (edges g) C) \<and>
              (is_in dst (replaced_nodes ld) \<or> Edge C dst \<in> set (graph_lines ld g True)) \<and>
              Edge A dst \<notin> set (graph_lines ld g True) \<and>
              Edge B dst \<notin> set (graph_lines ld g True))"
proof -
  let ?rn = "replaced_nodes ld"
  from c have "resolve ?rn True C = Some C" by (simp add: resolve_not_key)
  with ab bc have res: "resolve ?rn True A = Some C" by (simp add: resolve_key)
  from ends obtain g where build: "build_graph app_names ld True = Some g"
    unfolding build_graph_returns [symmetric] ..
  from res dep grp have "C \<in> resolved_sources app_names ?rn True (dependencies m)"
    unfolding resolved_sources_def by (cases A) auto
  with dst have "dst \<in> dependents_of app_names ?rn True (migrations ld) C"
    unfolding dependents_of_def by blast
  then have mem: "dst \<in> set (dst_set_of (edges g) C)"
    by (simp add: build_graph_edges [OF build])
  note dist = build_graph_distinct [OF build]
  have shown: "is_in dst ?rn \<or> Edge C dst \<in> set (graph_lines ld g True)"
    unfolding Edge_in_graph_lines Edge_in_edge_lines dst_set_of_distinct [OF dist]
    using mem c by blast
  have hidden: "Edge A dst \<notin> set (graph_lines ld g True)" "Edge B dst \<notin> set (graph_lines ld g True)"
    unfolding Edge_in_graph_lines Edge_in_edge_lines Edge_in_replacement_lines
    using ab bc by (auto simp: is_in_def)
  from res build mem shown hidden show ?thesis by blast
qed

theorem transitive_redirection_witness:
  "resolve (replaced_nodes (read_migrations [''a''] chain_disk)) True (''a'', ''1'') =
     Some (''a'', ''3'') \<and>
   render_graph [''a''] chain_disk True =
     Some [Node (''a'', ''3'') ''#79aec8'' ''a:3 (squash)'',
           Node (''a'', ''4'') ''#79aec8'' ''a:4'',
           Edge (''a'', ''3'') (''a'', ''4'')]"
proof
  let ?ld = "read_migrations [''a''] chain_disk"
  have ab: "map_of (replaced_nodes ?ld) (''a'', ''1'') = Some (''a'', ''2'')" by code_simp
  have bc: "map_of (replaced_nodes ?ld) (''a'', ''2'') = Some (''a'', ''3'')" by code_simp
  have c: "\<not> is_in (''a'', ''3'') (replaced_nodes ?ld)" by code_simp
  have dst: "((''a'', ''4''), module ''4'' [Tuple ''a'' ''1''] []) \<in> set (migrations ?ld)"
    by code_simp
  have dep: "Tuple (fst (''a'', ''1'')) (snd (''a'', ''1''))
               \<in> set (dependencies (module ''4'' [Tuple ''a'' ''1''] []))"
    by code_simp
  have ends: "every_chain_ends [''a''] (replaced_nodes ?ld) True (migrations ?ld)"
    by code_simp
  from transitive_redirection [OF ab bc c dst _ dep _ ends]
  show "resolve (replaced_nodes ?ld) True (''a'', ''1'') = Some (''a'', ''3'')" by simp
  show "render_graph [''a''] chain_disk True =
     Some [Node (''a'', ''3'') ''#79aec8'' ''a:3 (squash)'',
           Node (''a'', ''4'') ''#79aec8'' ''a:4'',
           Edge (''a'', ''3'') (''a'', ''4'')]"
    by code_simp
qed

text \<open>
  When the chain goes on beyond the third identifier, the resolution goes on with it: with
  a further squash of \<^verbatim>\<open>("a", "3")\<close> into \<^verbatim>\<open>("a", "4")\<close>, the dependency on
  \<^verbatim>\<open>("a", "1")\<close> resolves to \<^verbatim>\<open>("a", "4")\<close>, the end of the chain, and the emitted
  edge starts there.
\<close>

lemma longer_chain_resolves_to_its_end:
  "map_of (replaced_nodes (read_migrations [''a''] long_chain_disk)) (''a'', ''1'') =
     Some (''a'', ''2'') \<and>
   map_of (replaced_nodes (read_migrations [''a''] long_chain_disk)) (''a'', ''2'') =
     Some (''a'', ''3'') \<and>
   resolve (replaced_nodes (read_migrations [''a''] long_chain_disk)) True (''a'', ''1'') =
     Some (''a'', ''4'') \<and>
   render_graph [''a''] long_chain_disk True =
     Some [Node (''a'', ''4'') ''#79aec8'' ''a:4 (squash)'',
           Node (''a'', ''5'') ''#79aec8'' ''a:5'',
           Edge (''a'', ''4'') (''a'', ''5'')]"
  by code_simp

section \<open>Cross-group marking\<close>

lemma node_line_color:
  "node_line ld g x = Node y color label \<Longrightarrow>
   y = x \<and>
   color = (if is_in x (replaced_nodes ld) then ''#eeeeee''
            else if \<exists>dst \<in> set (dst_set_of (edges g) x).
                      \<not> is_in dst (replaced_nodes ld) \<and> fst dst \<noteq> fst x
                 then ''#d9534f'' else ''#79aec8'')"
  by (auto simp: node_line_def Let_def simp del: not_is_in split: if_splits)

lemma Node_in_graph_lines:
  "Node x color label \<in> set (graph_lines ld g hide) \<longleftrightarrow>
   Node x color label \<in> set (node_lines ld g hide)"
  by (auto simp: graph_lines_def replacement_lines_def edge_lines_def simp del: not_is_in
           split: if_splits)

text \<open>
  C5, as the code has it. A node \<open>x\<close> is emitted with the cross-group colour exactly
  when it is a registered node that is not a key of the replacement map and one of the
  destinations of its edges lies in another group and is not a key of the replacement
  map. Whether replaced records are hidden or shown plays no part: line 117 leaves out
  every replaced destination.
\<close>

theorem cross_group_marking:
  "(\<exists>label. Node x ''#d9534f'' label \<in> set (graph_lines ld g hide)) \<longleftrightarrow>
   x \<in> set (all_nodes g) \<and> \<not> is_in x (replaced_nodes ld) \<and>
   (\<exists>y \<in> set (dst_set_of (edges g) x). fst y \<noteq> fst x \<and> \<not> is_in y (replaced_nodes ld))"
proof
  assume "\<exists>label. Node x ''#d9534f'' label \<in> set (graph_lines ld g hide)"
  then obtain label where "Node x ''#d9534f'' label \<in> set (node_lines ld g hide)"
    unfolding Node_in_graph_lines by blast
  then obtain z where z: "z \<in> set (all_nodes g)" "node_line ld g z = Node x ''#d9534f'' label"
    by (auto simp: node_lines_def simp del: not_is_in)
  from node_line_color [OF z(2)] z(1)
  show "x \<in> set (all_nodes g) \<and> \<not> is_in x (replaced_nodes ld) \<and>
        (\<exists>y \<in> set (dst_set_of (edges g) x). fst y \<noteq> fst x \<and> \<not> is_in y (replaced_nodes ld))"
    by (auto simp del: not_is_in split: if_splits)
next
  assume r: "x \<in> set (all_nodes g) \<and> \<not> is_in x (replaced_nodes ld) \<and>
        (\<exists>y \<in> set (dst_set_of (edges g) x). fst y \<noteq> fst x \<and> \<not> is_in y (replaced_nodes ld))"
  obtain c l where cl: "node_line ld g x = Node x c l" using node_line_shape by blast
  from node_line_color [OF cl] r have "c = ''#d9534f''" by (auto simp del: not_is_in)
  moreover from r have "x \<in> set (filter (\<lambda>src. \<not> (is_in src (replaced_nodes ld) \<and> hide))
                                  (sort (all_nodes g)))"
    by (simp del: not_is_in)
  then have "node_line ld g x \<in> set (node_lines ld g hide)"
    unfolding node_lines_def by (simp del: not_is_in)
  ultimately have "Node x ''#d9534f'' l \<in> set (node_lines ld g hide)"
    using cl by simp
  then show "\<exists>label. Node x ''#d9534f'' label \<in> set (graph_lines ld g hide)"
    unfolding Node_in_graph_lines by blast
qed

theorem cross_group_marking_witness:
  "Node (''a'', ''1'') ''#d9534f'' ''a:1''
     \<in> set (graph_lines (read_migrations [''a'', ''b''] cross_live_disk)
              (the (build_graph [''a'', ''b''] (read_migrations [''a'', ''b''] cross_live_disk) True))
              True)"
proof -
  let ?ld = "read_migrations [''a'', ''b''] cross_live_disk"
  let ?g = "the (build_graph [''a'', ''b''] ?ld True)"
  have "(''a'', ''1'') \<in> set (all_nodes ?g) \<and> \<not> is_in (''a'', ''1'') (replaced_nodes ?ld) \<and>
        (\<exists>y \<in> set (dst_set_of (edges ?g) (''a'', ''1'')).
            fst y \<noteq> fst (''a'', ''1'') \<and> \<not> is_in y (replaced_nodes ?ld))"
    by code_simp
  with cross_group_marking [of "(''a'', ''1'')" ?ld ?g True]
  obtain label where l: "Node (''a'', ''1'') ''#d9534f'' label \<in> set (graph_lines ?ld ?g True)"
    by blast
  have "graph_lines ?ld ?g True =
        [Node (''a'', ''1'') ''#d9534f'' ''a:1'', Node (''b'', ''2'') ''#79aec8'' ''b:2'',
         Edge (''a'', ''1'') (''b'', ''2'')]"
    by code_simp
  with l show ?thesis by simp
qed

text \<open>
  C5 as stated says that with replaced records shown, a replaced destination in another
  group marks the node. Here \<^verbatim>\<open>("b", "2")\<close> depends on \<^verbatim>\<open>("a", "1")\<close> and is
  replaced by \<^verbatim>\<open>("b", "3")\<close>; replaced records are shown, the edge from
  \<^verbatim>\<open>("a", "1")\<close> to \<^verbatim>\<open>("b", "2")\<close> is emitted, and \<^verbatim>\<open>("a", "1")\<close> keeps the
  plain colour.
\<close>

theorem cross_group_marking_counterexample:
  "render_graph [''a'', ''b''] cross_disk False =
     Some [Node (''a'', ''1'') ''#79aec8'' ''a:1'',
           Node (''b'', ''2'') ''#eeeeee'' ''b:2 (squashed)'',
           Node (''b'', ''3'') ''#79aec8'' ''b:3 (squash)'',
           Edge (''b'', ''2'') (''b'', ''3''),
           Edge (''a'', ''1'') (''b'', ''2'')]"
  by code_simp


section \<open>What the rewrite does to the files\<close>





section \<open>The rewrite on the squash scenario\<close>


section \<open>Frame of the rewrite\<close>




section \<open>Removal of the replaced records\<close>

lemma remove_loop_removes:
  assumes "distinct (map snd ps)"
    and "list_all (\<lambda>(k, p). is_in k (replaced_nodes ld) \<longrightarrow> files w p \<noteq> None) ps"
  shows "remove_loop ld ps w =
         (None, w\<lparr>files := (\<lambda>p. if p \<in> set (removed_paths ld ps) then None else files w p),
                   stdout := stdout w @ map (\<lambda>p. (SUCCESS, p @ '' deleted'')) (removed_paths ld ps)\<rparr>)"
  using assms
proof (induction ps arbitrary: w)
  case Nil
  then show ?case by (simp add: removed_paths_def)
next
  case (Cons kp ps)
  obtain k p where kp: "kp = (k, p)" by (cases kp)
  from Cons.prems have dist: "distinct (map snd ps)" and fresh: "p \<notin> snd ` set ps" by (auto simp: kp)
  show ?case
  proof (cases "is_in k (replaced_nodes ld)")
    case False
    with Cons kp show ?thesis by (simp add: removed_paths_def del: not_is_in)
  next
    case True
    with Cons.prems obtain content where c: "files w p = Some content" by (auto simp: kp)
    let ?w = "w\<lparr>files := (files w)(p := None),
                  stdout := stdout w @ [(SUCCESS, p @ '' deleted'')]\<rparr>"
    from fresh have away: "\<And>k' q. (k', q) \<in> set ps \<Longrightarrow> q \<noteq> p" by force
    from Cons.prems
    have "list_all (\<lambda>(k, p). is_in k (replaced_nodes ld) \<longrightarrow> files w p \<noteq> None) ps"
      by (simp add: kp del: not_is_in)
    with away
    have "list_all (\<lambda>(k, p). is_in k (replaced_nodes ld) \<longrightarrow> files ?w p \<noteq> None) ps"
      unfolding list_all_iff by (auto simp del: not_is_in)
    from Cons.IH [OF dist this] True c show ?thesis
      by (auto simp: kp removed_paths_def fun_eq_iff simp del: not_is_in)
  qed
qed

lemma mem_removed_paths:
  "p \<in> set (removed_paths ld ps) \<longleftrightarrow> (\<exists>k. (k, p) \<in> set ps \<and> is_in k (replaced_nodes ld))"
  unfolding removed_paths_def by (force simp del: not_is_in)

lemma removed_paths_iff:
  assumes "distinct (map snd ps)" and "(k, p) \<in> set ps"
  shows "p \<in> set (removed_paths ld ps) \<longleftrightarrow> is_in k (replaced_nodes ld)"
proof -
  have same: "k' = k" if "(k', p) \<in> set ps" for k'
  proof -
    from assms(1) have "inj_on snd (set ps)" by (simp add: distinct_map)
    from inj_onD [OF this, of "(k', p)" "(k, p)"] that assms(2) show ?thesis by simp
  qed
  show ?thesis
  proof
    assume "p \<in> set (removed_paths ld ps)"
    then obtain k' where "(k', p) \<in> set ps" "is_in k' (replaced_nodes ld)"
      unfolding mem_removed_paths by blast
    with same [of k'] show "is_in k (replaced_nodes ld)" by blast
  next
    assume "is_in k (replaced_nodes ld)"
    with assms(2) show "p \<in> set (removed_paths ld ps)"
      unfolding mem_removed_paths by blast
  qed
qed

text \<open>
  C7. When the loaded records have pairwise different files and the file of every
  replaced record exists, the removal ends without an exception; afterwards the file of
  a loaded record is gone if its identifier is a key of the replacement map and is as
  it was otherwise; every other file is as it was; and one notice is printed for each
  file removed.
\<close>

theorem remove_exactly_replaced:
  assumes "distinct (map snd (migration_paths ld))"
    and "list_all (\<lambda>(k, p). is_in k (replaced_nodes ld) \<longrightarrow> files w p \<noteq> None) (migration_paths ld)"
  shows "fst (remove_squashed_dependencies ld w) = None \<and>
         (\<forall>(k, p) \<in> set (migration_paths ld).
            files (snd (remove_squashed_dependencies ld w)) p =
            (if is_in k (replaced_nodes ld) then None else files w p)) \<and>
         (\<forall>p. p \<notin> snd ` set (migration_paths ld) \<longrightarrow>
            files (snd (remove_squashed_dependencies ld w)) p = files w p) \<and>
         stdout (snd (remove_squashed_dependencies ld w)) =
           stdout w @ map (\<lambda>p. (SUCCESS, p @ '' deleted''))
                        (removed_paths ld (migration_paths ld))"
proof -
  let ?mp = "migration_paths ld"
  let ?res = "remove_squashed_dependencies ld w"
  note r = remove_loop_removes [OF assms]
  have none: "fst ?res = None"
    unfolding remove_squashed_dependencies_def r by simp
  have fs: "files (snd ?res) q = (if q \<in> set (removed_paths ld ?mp) then None else files w q)"
    for q
    unfolding remove_squashed_dependencies_def r by simp
  have so: "stdout (snd ?res) =
            stdout w @ map (\<lambda>p. (SUCCESS, p @ '' deleted'')) (removed_paths ld ?mp)"
    unfolding remove_squashed_dependencies_def r by simp
  have loaded: "\<forall>(k, p) \<in> set ?mp.
                  files (snd ?res) p = (if is_in k (replaced_nodes ld) then None else files w p)"
  proof (clarify)
    fix k1 k2 p assume "((k1, k2), p) \<in> set ?mp"
    from removed_paths_iff [OF assms(1) this, of ld]
    show "files (snd ?res) p =
          (if is_in (k1, k2) (replaced_nodes ld) then None else files w p)"
      unfolding fs by (simp del: not_is_in)
  qed
  have others: "\<forall>p. p \<notin> snd ` set ?mp \<longrightarrow> files (snd ?res) p = files w p"
  proof (intro allI impI)
    fix p assume "p \<notin> snd ` set ?mp"
    moreover have "set (removed_paths ld ?mp) \<subseteq> snd ` set ?mp"
      unfolding removed_paths_def by force
    ultimately have "p \<notin> set (removed_paths ld ?mp)" by blast
    then show "files (snd ?res) p = files w p" unfolding fs by simp
  qed
  from none loaded others so show ?thesis by (intro conjI)
qed

theorem remove_exactly_replaced_witness:
  "fst (remove_squashed_dependencies (read_migrations [''a''] squash_disk) plain_world) = None \<and>
   files (snd (remove_squashed_dependencies (read_migrations [''a''] squash_disk) plain_world))
     ''/1.py'' = None \<and>
   files (snd (remove_squashed_dependencies (read_migrations [''a''] squash_disk) plain_world))
     ''/2.py'' = None \<and>
   files (snd (remove_squashed_dependencies (read_migrations [''a''] squash_disk) plain_world))
     ''/3.py'' = Some ''three'' \<and>
   files (snd (remove_squashed_dependencies (read_migrations [''a''] squash_disk) plain_world))
     ''/4.py'' = Some ''four''"
proof -
  let ?ld = "read_migrations [''a''] squash_disk"
  have d: "distinct (map snd (migration_paths ?ld))" by code_simp
  have e: "list_all (\<lambda>(k, p). is_in k (replaced_nodes ?ld) \<longrightarrow> files plain_world p \<noteq> None)
             (migration_paths ?ld)"
    by code_simp
  have paths: "migration_paths ?ld =
               [((''a'', ''1''), ''/1.py''), ((''a'', ''2''), ''/2.py''),
                ((''a'', ''3''), ''/3.py''), ((''a'', ''4''), ''/4.py'')]"
    by code_simp
  have keys: "is_in (''a'', ''1'') (replaced_nodes ?ld)" "is_in (''a'', ''2'') (replaced_nodes ?ld)"
    "\<not> is_in (''a'', ''3'') (replaced_nodes ?ld)" "\<not> is_in (''a'', ''4'') (replaced_nodes ?ld)"
    by code_simp+
  have w: "files plain_world ''/3.py'' = Some ''three''" "files plain_world ''/4.py'' = Some ''four''"
    by code_simp+
  from remove_exactly_replaced [OF d e] keys w show ?thesis
    unfolding paths by (simp del: not_is_in)
qed

section \<open>Entries that are not pairs\<close>

lemma strip_module_simps [simp]:
  "migration_name (strip_module m) = migration_name m"
  "migration_abspath (strip_module m) = migration_abspath m"
  "dependencies (strip_module m) = filter is_tuple (dependencies m)"
  "replaces (strip_module m) = filter is_tuple (replaces m)"
  by (simp_all add: strip_module_def)

lemma replaces_loop_strip:
  "replaces_loop app_names k (filter is_tuple es) rn = replaces_loop app_names k es rn"
  by (induction app_names k es rn rule: replaces_loop.induct) simp_all

lemma dependencies_loop_strip:
  "dependencies_loop app_names rn hide dst (filter is_tuple es) g =
   dependencies_loop app_names rn hide dst es g"
  by (induction app_names rn hide dst es g rule: dependencies_loop.induct)
     (simp_all split: option.splits)

lemma substitute_loop_strip:
  "substitute_loop engine rn (filter is_tuple es) content = substitute_loop engine rn es content"
  by (induction engine rn es content rule: substitute_loop.induct)
     (simp_all split: option.splits sum.splits)

lemma update_map_apsnd:
  "AList.update k (f v) (map (apsnd f) al) = map (apsnd f) (AList.update k v al)"
  by (induction al) auto

lemma migration_paths_load_module [simp]:
  "migration_paths (load_module app_names a m st) =
   AList.update (a, migration_name m) (migration_abspath m) (migration_paths st)"
  by (simp add: load_module_def Let_def)

lemma files_loop_strip:
  assumes "replaced_nodes st' = replaced_nodes st"
    and "migration_paths st' = migration_paths st"
    and "migrations st' = map (apsnd strip_module) (migrations st)"
  shows "replaced_nodes (files_loop app_names a (map strip_module ms) st') =
           replaced_nodes (files_loop app_names a ms st) \<and>
         migration_paths (files_loop app_names a (map strip_module ms) st') =
           migration_paths (files_loop app_names a ms st) \<and>
         migrations (files_loop app_names a (map strip_module ms) st') =
           map (apsnd strip_module) (migrations (files_loop app_names a ms st))"
  using assms
proof (induction ms arbitrary: st st')
  case Nil
  then show ?case by simp
next
  case (Cons m ms)
  show ?case
    unfolding list.map files_loop.simps
  proof (rule Cons.IH)
    show "replaced_nodes (load_module app_names a (strip_module m) st') =
          replaced_nodes (load_module app_names a m st)"
      using Cons.prems by (simp add: replaces_loop_strip)
    show "migration_paths (load_module app_names a (strip_module m) st') =
          migration_paths (load_module app_names a m st)"
      using Cons.prems by simp
    show "migrations (load_module app_names a (strip_module m) st') =
          map (apsnd strip_module) (migrations (load_module app_names a m st))"
      using Cons.prems by (simp add: update_map_apsnd)
  qed
qed

lemma apps_loop_strip:
  assumes "replaced_nodes st' = replaced_nodes st"
    and "migration_paths st' = migration_paths st"
    and "migrations st' = map (apsnd strip_module) (migrations st)"
  shows "replaced_nodes (apps_loop app_names (strip_disk d) as st') =
           replaced_nodes (apps_loop app_names d as st) \<and>
         migration_paths (apps_loop app_names (strip_disk d) as st') =
           migration_paths (apps_loop app_names d as st) \<and>
         migrations (apps_loop app_names (strip_disk d) as st') =
           map (apsnd strip_module) (migrations (apps_loop app_names d as st))"
  using assms
proof (induction as arbitrary: st st')
  case Nil
  then show ?case by simp
next
  case (Cons a as)
  show ?case
  proof (cases "d a")
    case None
    with Cons show ?thesis by (simp add: strip_disk_def)
  next
    case (Some ms)
    note f = files_loop_strip [OF Cons.prems, of app_names a ms]
    from Cons.IH [of "files_loop app_names a (map strip_module ms) st'"
                     "files_loop app_names a ms st"] f Some
    show ?thesis by (simp add: strip_disk_def)
  qed
qed

lemma read_migrations_strip:
  "replaced_nodes (read_migrations app_names (strip_disk d)) =
     replaced_nodes (read_migrations app_names d) \<and>
   migration_paths (read_migrations app_names (strip_disk d)) =
     migration_paths (read_migrations app_names d) \<and>
   migrations (read_migrations app_names (strip_disk d)) =
     map (apsnd strip_module) (migrations (read_migrations app_names d))"
  unfolding read_migrations_def by (rule apps_loop_strip) simp_all

lemma migrations_loop_strip:
  "migrations_loop app_names rn hide (map (apsnd strip_module) migs) g =
   migrations_loop app_names rn hide migs g"
proof (induction migs arbitrary: g)
  case Nil
  then show ?case by simp
next
  case (Cons p migs)
  obtain dst m where "p = (dst, m)" by (cases p)
  with Cons show ?case by (simp add: dependencies_loop_strip split: run.splits)
qed

lemma map_of_map_apsnd:
  "map_of (map (apsnd f) al) k = map_option f (map_of al k)"
  by (induction al) auto

lemma rewrite_loop_strip:
  assumes "replaced_nodes ld' = replaced_nodes ld"
    and "migrations ld' = map (apsnd strip_module) (migrations ld)"
  shows "rewrite_loop pf engine ld' ps w = rewrite_loop pf engine ld ps w"
proof (induction ps arbitrary: w)
  case Nil
  then show ?case by simp
next
  case (Cons kp ps)
  obtain k p where kp: "kp = (k, p)" by (cases kp)
  have look: "map_of (migrations ld') k = map_option strip_module (map_of (migrations ld) k)"
    unfolding assms(2) by (rule map_of_map_apsnd)
  show ?case
  proof (cases "map_of (migrations ld) k")
    case None
    with look show ?thesis by (simp add: kp)
  next
    case (Some m)
    with look Cons.IH assms(1) show ?thesis
      by (simp add: kp substitute_loop_strip split: option.splits sum.splits)
  qed
qed

text \<open>
  C10. Taking every entry that is not a pair out of the dependencies and of the replaces
  of every record changes neither the replacement map, nor the outcome of the graph
  building (its edges, its registered nodes, its diagnostics, and whether it returns;
  also the state it reaches and what it has printed when it does not return), nor the
  outcome of the rewrite (the exception, the files, what is written and printed).
\<close>

theorem non_tuple_entries_skipped:
  "replaced_nodes (read_migrations app_names (strip_disk d)) =
     replaced_nodes (read_migrations app_names d) \<and>
   build_graph app_names (read_migrations app_names (strip_disk d)) hide =
     build_graph app_names (read_migrations app_names d) hide \<and>
   build_run app_names (read_migrations app_names (strip_disk d)) hide =
     build_run app_names (read_migrations app_names d) hide \<and>
   replace_squashed_dependencies pf engine (read_migrations app_names (strip_disk d)) w =
     replace_squashed_dependencies pf engine (read_migrations app_names d) w"
proof (intro conjI)
  note r = read_migrations_strip [of app_names d]
  from r show "replaced_nodes (read_migrations app_names (strip_disk d)) =
               replaced_nodes (read_migrations app_names d)" by simp
  from r show "build_graph app_names (read_migrations app_names (strip_disk d)) hide =
               build_graph app_names (read_migrations app_names d) hide"
    by (simp add: build_graph_def build_run_def migrations_loop_strip)
  from r show "build_run app_names (read_migrations app_names (strip_disk d)) hide =
               build_run app_names (read_migrations app_names d) hide"
    by (simp add: build_run_def migrations_loop_strip)
  from r rewrite_loop_strip [of "read_migrations app_names (strip_disk d)"
                                "read_migrations app_names d" pf engine]
  show "replace_squashed_dependencies pf engine (read_migrations app_names (strip_disk d)) w =
        replace_squashed_dependencies pf engine (read_migrations app_names d) w"
    by (simp add: replace_squashed_dependencies_def)
qed

theorem non_tuple_entries_skipped_witness:
  "replaced_nodes (read_migrations [''a''] nontuple_disk) = [((''a'', ''1''), (''a'', ''3''))] \<and>
   map_option edges (build_graph [''a''] (read_migrations [''a''] nontuple_disk) True) =
     Some [((''a'', ''3''), [(''a'', ''2'')])] \<and>
   map_option all_nodes (build_graph [''a''] (read_migrations [''a''] nontuple_disk) True) =
     Some [(''a'', ''4''), (''a'', ''2''), (''a'', ''3''), (''a'', ''1'')] \<and>
   map_option (map fst \<circ> out) (build_graph [''a''] (read_migrations [''a''] nontuple_disk) True) =
     Some [SUCCESS]"
proof -
  have "replaced_nodes (read_migrations [''a''] (strip_disk nontuple_disk)) =
          [((''a'', ''1''), (''a'', ''3''))]"
    by code_simp
  moreover have "map_option edges
          (build_graph [''a''] (read_migrations [''a''] (strip_disk nontuple_disk)) True) =
        Some [((''a'', ''3''), [(''a'', ''2'')])]"
    by code_simp
  moreover have "map_option all_nodes
          (build_graph [''a''] (read_migrations [''a''] (strip_disk nontuple_disk)) True) =
        Some [(''a'', ''4''), (''a'', ''2''), (''a'', ''3''), (''a'', ''1'')]"
    by code_simp
  moreover have "map_option (map fst \<circ> out)
          (build_graph [''a''] (read_migrations [''a''] (strip_disk nontuple_disk)) True) =
        Some [SUCCESS]"
    by code_simp
  ultimately show ?thesis
    using non_tuple_entries_skipped [of "[''a'']" nontuple_disk True]
    by simp
qed

text \<open>
  What such an entry does change is outside the list of C10: line 65 tests the whole
  \<^verbatim>\<open>replaces\<close> list for emptiness, so a record whose list holds only entries that
  are not pairs still counts as squashing and is labelled so.
\<close>

lemma non_tuple_replaces_still_squashing:
  "squashing_migrations (read_migrations [''a''] nontuple_disk) = [(''a'', ''4''), (''a'', ''3'')] \<and>
   squashing_migrations (read_migrations [''a''] (strip_disk nontuple_disk)) = [(''a'', ''3'')]"
  by code_simp


end
